theory Spec2Isabelle
  imports Complex_Main "HOL-Library.Log_Nat"
begin

section \<open>Numbers\<close>

text \<open>
  A JavaScript number is a binary64 value: a finite one is given by the rational it
  denotes, and there are the three values that are not finite. The sign of zero is not
  kept: \<open>-0\<close> counts as \<open>0\<close>.
\<close>

datatype jsnum = Fin rat | NaN | PInf | NInf

text \<open>
  The result of an arithmetic operation is the binary64 value nearest to the exact
  result, the one with the even significand when two are as near, and an infinity when
  the rounded magnitude reaches \<open>2^1024\<close>. A finite binary64 value is an integer of at
  most 53 bits times a power of two, of an exponent from \<open>-1074\<close> on.
\<close>

definition roundHalfEven :: "rat \<Rightarrow> int" where
  "roundHalfEven q =
     (let f = \<lfloor>q\<rfloor>; d = q - of_int f
      in if d < 1 / 2 then f else if 1 / 2 < d then f + 1 else if even f then f else f + 1)"

text \<open>The exponent of the leading bit of a positive rational.\<close>

definition log2floor :: "rat \<Rightarrow> int" where
  "log2floor a = (if 1 \<le> a then bitlen \<lfloor>a\<rfloor> - 1 else - bitlen (\<lceil>1 / a\<rceil> - 1))"

definition binary64 :: "rat \<Rightarrow> jsnum" where
  "binary64 x =
     (if x = 0 then Fin 0
      else
        let a = \<bar>x\<bar>;
            e = max (log2floor a - 52) (- 1074);
            r = of_int (roundHalfEven (a / power_int 2 e)) * power_int 2 e
        in if power_int 2 1024 \<le> r then (if 0 < x then PInf else NInf)
           else Fin (if 0 < x then r else - r))"

fun isFinite :: "jsnum \<Rightarrow> bool" where
  "isFinite (Fin q) = True"
| "isFinite _ = False"

fun js_neg :: "jsnum \<Rightarrow> jsnum" where
  "js_neg (Fin a) = Fin (- a)"
| "js_neg NaN = NaN"
| "js_neg PInf = NInf"
| "js_neg NInf = PInf"

fun js_add :: "jsnum \<Rightarrow> jsnum \<Rightarrow> jsnum" where
  "js_add (Fin a) (Fin b) = binary64 (a + b)"
| "js_add NaN _ = NaN"
| "js_add _ NaN = NaN"
| "js_add PInf NInf = NaN"
| "js_add NInf PInf = NaN"
| "js_add PInf _ = PInf"
| "js_add NInf _ = NInf"
| "js_add _ PInf = PInf"
| "js_add _ NInf = NInf"

definition js_sub :: "jsnum \<Rightarrow> jsnum \<Rightarrow> jsnum" where
  "js_sub a b = js_add a (js_neg b)"

text \<open>The sign of a number that is not NaN: \<open>-1\<close>, \<open>0\<close> or \<open>1\<close>.\<close>

fun js_sgn :: "jsnum \<Rightarrow> int" where
  "js_sgn (Fin a) = (if a < 0 then - 1 else if a = 0 then 0 else 1)"
| "js_sgn PInf = 1"
| "js_sgn NInf = - 1"
| "js_sgn NaN = 0"

definition inf_of_sign :: "int \<Rightarrow> jsnum" where
  "inf_of_sign k = (if k = 0 then NaN else if 0 < k then PInf else NInf)"

fun js_mul :: "jsnum \<Rightarrow> jsnum \<Rightarrow> jsnum" where
  "js_mul (Fin a) (Fin b) = binary64 (a * b)"
| "js_mul NaN _ = NaN"
| "js_mul _ NaN = NaN"
| "js_mul x y = inf_of_sign (js_sgn x * js_sgn y)"

text \<open>Division; a zero divisor counts as \<open>+0\<close>.\<close>

fun js_div :: "jsnum \<Rightarrow> jsnum \<Rightarrow> jsnum" where
  "js_div (Fin a) (Fin b) = (if b = 0 then inf_of_sign (js_sgn (Fin a)) else binary64 (a / b))"
| "js_div NaN _ = NaN"
| "js_div _ NaN = NaN"
| "js_div (Fin a) _ = Fin 0"
| "js_div x (Fin b) = inf_of_sign (js_sgn x * (if b < 0 then - 1 else 1))"
| "js_div _ _ = NaN"

text \<open>\<open>a > 0\<close>, \<open>a <= 0\<close> and \<open>a !== b\<close>: every comparison with NaN is false, and NaN
  differs from itself.\<close>

fun js_gt0 :: "jsnum \<Rightarrow> bool" where
  "js_gt0 (Fin a) = (0 < a)"
| "js_gt0 PInf = True"
| "js_gt0 _ = False"

fun js_le0 :: "jsnum \<Rightarrow> bool" where
  "js_le0 (Fin a) = (a \<le> 0)"
| "js_le0 NInf = True"
| "js_le0 _ = False"

definition js_neq :: "jsnum \<Rightarrow> jsnum \<Rightarrow> bool" where
  "js_neq a b = (a = NaN \<or> b = NaN \<or> a \<noteq> b)"

text \<open>\<open>Math.round\<close> rounds to the nearest integer, a half towards \<open>+\<infinity>\<close>. The result
  is exact: the nearest integer of a binary64 value is a binary64 value.\<close>

fun Math_round :: "jsnum \<Rightarrow> jsnum" where
  "Math_round (Fin a) = Fin (of_int \<lfloor>a + 1 / 2\<rfloor>)"
| "Math_round x = x"

definition round2 :: "jsnum \<Rightarrow> jsnum" where
  "round2 n = js_div (Math_round (js_mul n (Fin 100))) (Fin 100)"

section \<open>Strings\<close>

text \<open>
  A string is a list of code units; a \<^typ>\<open>char\<close> stands for a code unit below 256.
  The white space that \<open>trim\<close> and \<open>Number\<close> strip is then tab, line feed, vertical
  tab, form feed, carriage return, space and the no-break space.
\<close>

definition isWhiteSpace :: "char \<Rightarrow> bool" where
  "isWhiteSpace c = (c \<in> set [CHR 0x09, CHR 0x0A, CHR 0x0B, CHR 0x0C, CHR 0x0D, CHR 0x20, CHR 0xA0])"

definition trim :: "string \<Rightarrow> string" where
  "trim s = rev (dropWhile isWhiteSpace (rev (dropWhile isWhiteSpace s)))"

definition isDigit :: "char \<Rightarrow> bool" where
  "isDigit c = (48 \<le> (of_char c :: nat) \<and> (of_char c :: nat) \<le> 57)"

definition digitVal :: "char \<Rightarrow> nat" where
  "digitVal c = of_char c - 48"

definition digitsVal :: "string \<Rightarrow> nat" where
  "digitsVal ds = foldl (\<lambda>acc c. acc * 10 + digitVal c) 0 ds"

text \<open>Digits of the other radixes of a numeric string: \<open>0x\<close>, \<open>0o\<close>, \<open>0b\<close>.\<close>

definition radixDigit :: "nat \<Rightarrow> char \<Rightarrow> nat option" where
  "radixDigit b c =
     (let n = (of_char c :: nat);
          v = (if 48 \<le> n \<and> n \<le> 57 then Some (n - 48)
               else if 97 \<le> n \<and> n \<le> 102 then Some (n - 87)
               else if 65 \<le> n \<and> n \<le> 70 then Some (n - 55)
               else None)
      in case v of None \<Rightarrow> None | Some d \<Rightarrow> if d < b then Some d else None)"

fun radixVal :: "nat \<Rightarrow> nat \<Rightarrow> string \<Rightarrow> nat option" where
  "radixVal b acc [] = Some acc"
| "radixVal b acc (c # cs) =
     (case radixDigit b c of None \<Rightarrow> None | Some d \<Rightarrow> radixVal b (acc * b + d) cs)"

definition nonDecimal :: "string \<Rightarrow> nat option" where
  "nonDecimal t =
     (case t of
        z # x # ds \<Rightarrow>
          if z = CHR ''0'' \<and> ds \<noteq> [] then
            (if x = CHR ''x'' \<or> x = CHR ''X'' then radixVal 16 0 ds
             else if x = CHR ''o'' \<or> x = CHR ''O'' then radixVal 8 0 ds
             else if x = CHR ''b'' \<or> x = CHR ''B'' then radixVal 2 0 ds
             else None)
          else None
      | _ \<Rightarrow> None)"

definition allDigits :: "string \<Rightarrow> int option" where
  "allDigits ds = (if ds \<noteq> [] \<and> list_all isDigit ds then Some (int (digitsVal ds)) else None)"

definition exponentPart :: "string \<Rightarrow> int option" where
  "exponentPart r =
     (case r of
        [] \<Rightarrow> Some 0
      | c # r' \<Rightarrow>
          if c = CHR ''e'' \<or> c = CHR ''E'' then
            (case r' of
               [] \<Rightarrow> None
             | d # r'' \<Rightarrow>
                 if d = CHR ''-'' then map_option uminus (allDigits r'')
                 else if d = CHR ''+'' then allDigits r''
                 else allDigits r')
          else None)"

definition pow10 :: "int \<Rightarrow> rat" where
  "pow10 e = (if 0 \<le> e then 10 ^ nat e else 1 / 10 ^ nat (- e))"

definition unsignedDecimal :: "string \<Rightarrow> jsnum" where
  "unsignedDecimal u =
     (if u = ''Infinity'' then PInf
      else
        let ip = takeWhile isDigit u;
            r1 = dropWhile isDigit u;
            hasDot = (case r1 of [] \<Rightarrow> False | c # _ \<Rightarrow> c = CHR ''.'');
            fp = (if hasDot then takeWhile isDigit (tl r1) else []);
            r2 = (if hasDot then dropWhile isDigit (tl r1) else r1)
        in if ip = [] \<and> fp = [] then NaN
           else (case exponentPart r2 of
                   None \<Rightarrow> NaN
                 | Some e \<Rightarrow>
                     binary64 (of_nat (digitsVal (ip @ fp)) * pow10 (e - int (length fp)))))"

text \<open>\<open>Number(s)\<close> on a string: the binary64 value nearest to the value that the trimmed
  string denotes, \<open>0\<close> when it is empty, NaN when it is not a numeric literal.\<close>

definition Number_str :: "string \<Rightarrow> jsnum" where
  "Number_str s =
     (let t = trim s in
      case t of
        [] \<Rightarrow> Fin 0
      | c # r \<Rightarrow>
          (case nonDecimal t of
             Some v \<Rightarrow> binary64 (of_nat v)
           | None \<Rightarrow>
               if c = CHR ''-'' then js_neg (unsignedDecimal r)
               else if c = CHR ''+'' then unsignedDecimal r
               else unsignedDecimal t))"

text \<open>The values \<open>safeNum\<close> is applied to: a missing entry, a CSV cell, a number.\<close>

datatype jsval = Undefined | Str string | Num jsnum

fun Number_of :: "jsval \<Rightarrow> jsnum" where
  "Number_of Undefined = NaN"
| "Number_of (Str s) = Number_str s"
| "Number_of (Num n) = n"

definition safeNum :: "jsval \<Rightarrow> jsnum" where
  "safeNum x = (let n = Number_of x in if isFinite n then n else Fin 0)"

section \<open>Sources and rated capacity\<close>

datatype SourceKey = Coal | OilGas | Nuclear | Hydro | Solar | Wind | SmallHydro | BioPower

fun sourceName :: "SourceKey \<Rightarrow> string" where
  "sourceName Coal = ''Coal''"
| "sourceName OilGas = ''Oil & Gas''"
| "sourceName Nuclear = ''Nuclear''"
| "sourceName Hydro = ''Hydro''"
| "sourceName Solar = ''Solar''"
| "sourceName Wind = ''Wind''"
| "sourceName SmallHydro = ''Small-Hydro''"
| "sourceName BioPower = ''Bio Power''"

definition SOURCES :: "SourceKey list" where
  "SOURCES = [Coal, OilGas, Nuclear, Hydro, Solar, Wind, SmallHydro, BioPower]"

text \<open>\<open>obj[k]\<close> on an object with numeric entries: \<open>undefined\<close> where the key is absent.\<close>

definition getNum :: "('k \<rightharpoonup> jsnum) \<Rightarrow> 'k \<Rightarrow> jsval" where
  "getNum obj k = (case obj k of None \<Rightarrow> Undefined | Some v \<Rightarrow> Num v)"

definition sumSources :: "('k \<rightharpoonup> jsnum) \<Rightarrow> 'k list \<Rightarrow> jsnum" where
  "sumSources obj keys = foldl (\<lambda>acc k. js_add acc (safeNum (getNum obj k))) (Fin 0) keys"

type_synonym capacities = "SourceKey \<rightharpoonup> jsnum"

definition ratedBySource :: "capacities \<Rightarrow> capacities \<Rightarrow> capacities" where
  "ratedBySource installed plf =
     foldl (\<lambda>out s. out(s \<mapsto> round2 (js_mul (safeNum (getNum installed s))
                                          (js_div (safeNum (getNum plf s)) (Fin 100)))))
       Map.empty SOURCES"

definition installedTotal :: "capacities \<Rightarrow> jsnum" where
  "installedTotal installed = sumSources installed SOURCES"

definition ratedTotal :: "capacities \<Rightarrow> capacities \<Rightarrow> jsnum" where
  "ratedTotal installed plf = sumSources (ratedBySource installed plf) SOURCES"

text \<open>What the claim about rated capacity calls coercing a non-finite input to \<open>0\<close>;
  an absent entry counts as \<open>0\<close> too.\<close>

definition finiteOrZero :: "jsnum option \<Rightarrow> rat" where
  "finiteOrZero x = (case x of Some (Fin q) \<Rightarrow> q | _ \<Rightarrow> 0)"

section \<open>The CSV parser\<close>

definition LF :: char where "LF = CHR 0x0A"
definition CR :: char where "CR = CHR 0x0D"
definition quote :: char where "quote = CHR 0x22"
definition comma :: char where "comma = CHR '',''"

text \<open>\<open>text.split(/\r?\n/)\<close>: the text is cut at every line feed, and a carriage return
  right before the line feed goes with it.\<close>

fun splitLines :: "string \<Rightarrow> string list" where
  "splitLines [] = [[]]"
| "splitLines [c] = (if c = LF then [[], []] else [[c]])"
| "splitLines (c # d # cs) =
     (if c = LF then [] # splitLines (d # cs)
      else if c = CR \<and> d = LF then [] # splitLines cs
      else (case splitLines (d # cs) of l # ls \<Rightarrow> (c # l) # ls | [] \<Rightarrow> [[c]]))"

text \<open>The loop of \<open>parseLine\<close> over the characters that are left, with the fields pushed
  so far, the field being read and the quoting flag. An escaped quote consumes two
  characters.\<close>

function parseLine_loop :: "string \<Rightarrow> string list \<Rightarrow> string \<Rightarrow> bool \<Rightarrow> string list" where
  "parseLine_loop [] out cur inQuotes = out @ [trim cur]"
| "parseLine_loop (ch # rest) out cur inQuotes =
     (if ch = quote \<and> inQuotes \<and> (case rest of [] \<Rightarrow> False | next # _ \<Rightarrow> next = quote)
      then parseLine_loop (tl rest) out (cur @ [quote]) inQuotes
      else if ch = quote then parseLine_loop rest out cur (\<not> inQuotes)
      else if ch = comma \<and> \<not> inQuotes then parseLine_loop rest (out @ [trim cur]) [] inQuotes
      else parseLine_loop rest out (cur @ [ch]) inQuotes)"
  by pat_completeness auto
termination
  by (relation "measure (\<lambda>(line, out, cur, inQuotes). length line)") auto

definition parseLine :: "string \<Rightarrow> string list" where
  "parseLine line = parseLine_loop line [] [] False"

definition csvLines :: "string \<Rightarrow> string list" where
  "csvLines text = filter (\<lambda>l. l \<noteq> []) (map trim (splitLines text))"

record csv =
  header :: "string list"
  rows :: "string list list"

definition parseCSVSimple :: "string \<Rightarrow> csv" where
  "parseCSVSimple text =
     (case csvLines text of
        [] \<Rightarrow> \<lparr>header = [], rows = []\<rparr>
      | l # ls \<Rightarrow> \<lparr>header = parseLine l, rows = map parseLine ls\<rparr>)"

section \<open>Month keys\<close>

text \<open>\<open>s.split("/")\<close> gives one piece more than there are separators.\<close>

fun splitOn :: "char \<Rightarrow> string \<Rightarrow> string list" where
  "splitOn sep [] = [[]]"
| "splitOn sep (c # cs) =
     (if c = sep then [] # splitOn sep cs
      else (case splitOn sep cs of l # ls \<Rightarrow> (c # l) # ls | [] \<Rightarrow> [[c]]))"

text \<open>\<open>const [mm, yyyy] = key.split("/").map((x) => Number(x))\<close>: the first piece is
  always there, the second is \<open>undefined\<close> (\<open>None\<close>) when the key has no separator.\<close>

definition monthKeyParts :: "string \<Rightarrow> jsnum option \<times> jsnum option" where
  "monthKeyParts key =
     (let ps = map Number_str (splitOn (CHR ''/'') key)
      in (case ps of [] \<Rightarrow> None | m # _ \<Rightarrow> Some m,
          case ps of _ # y # _ \<Rightarrow> Some y | _ \<Rightarrow> None))"

text \<open>\<open>a !== b\<close> and \<open>a - b\<close> on values that are numbers or \<open>undefined\<close>.\<close>

fun strictNeq :: "jsnum option \<Rightarrow> jsnum option \<Rightarrow> bool" where
  "strictNeq None None = False"
| "strictNeq (Some a) (Some b) = js_neq a b"
| "strictNeq _ _ = True"

fun subParts :: "jsnum option \<Rightarrow> jsnum option \<Rightarrow> jsnum" where
  "subParts (Some a) (Some b) = js_sub a b"
| "subParts _ _ = NaN"

definition compareMonthKey :: "string \<Rightarrow> string \<Rightarrow> jsnum" where
  "compareMonthKey a b =
     (case monthKeyParts a of (am, ay) \<Rightarrow>
        (case monthKeyParts b of (bm, by) \<Rightarrow>
           if strictNeq ay by then subParts ay by else subParts am bm))"

function minusMonths_loop :: "int \<Rightarrow> int \<Rightarrow> int \<Rightarrow> int \<times> int" where
  "minusMonths_loop m y left =
     (if 0 < left then
        (if m - 1 \<le> 0 then minusMonths_loop 12 (y - 1) (left - 1)
         else minusMonths_loop (m - 1) y (left - 1))
      else (m, y))"
  by pat_completeness auto
termination
  by (relation "measure (\<lambda>(m, y, left). nat left)") auto

text \<open>\<open>String(n)\<close> on an integer, and \<open>padStart(2, "0")\<close>.\<close>

definition digitChar :: "nat \<Rightarrow> char" where
  "digitChar k = ''0123456789'' ! k"

fun showNat :: "nat \<Rightarrow> string" where
  "showNat n = (if n < 10 then [digitChar n] else showNat (n div 10) @ [digitChar (n mod 10)])"

definition showInt :: "int \<Rightarrow> string" where
  "showInt i = (if i < 0 then CHR ''-'' # showNat (nat (- i)) else showNat (nat i))"

definition padStart2 :: "string \<Rightarrow> string" where
  "padStart2 s = replicate (2 - length s) (CHR ''0'') @ s"

definition intPart :: "jsnum option \<Rightarrow> int option" where
  "intPart p = (case p of Some (Fin q) \<Rightarrow> (if of_int \<lfloor>q\<rfloor> = q then Some \<lfloor>q\<rfloor> else None) | _ \<Rightarrow> None)"

text \<open>\<open>minusMonths\<close> where both parts of the key are integers. Elsewhere the source still
  returns a string, the rendering of a fraction, of NaN or of an infinity, which the model
  does not represent: the result is \<open>None\<close> there.\<close>

definition minusMonths :: "string \<Rightarrow> int \<Rightarrow> string option" where
  "minusMonths monthKey monthsBack =
     (case monthKeyParts monthKey of (mm, yyyy) \<Rightarrow>
      (case (intPart mm, intPart yyyy) of
         (Some m0, Some y0) \<Rightarrow>
           (case minusMonths_loop m0 y0 monthsBack of
              (m, y) \<Rightarrow> Some (padStart2 (showInt m) @ ''/'' @ showInt y))
       | _ \<Rightarrow> None))"

text \<open>\<open>Array.prototype.sort\<close> with a comparator is stable, and a comparator result that is
  NaN counts as \<open>0\<close>. For a consistent comparator the result is the stable sorted
  arrangement, which insertion computes; for an inconsistent one the language leaves the
  order to the implementation, and the model fixes this one.\<close>

fun insertBy :: "('a \<Rightarrow> 'a \<Rightarrow> jsnum) \<Rightarrow> 'a \<Rightarrow> 'a list \<Rightarrow> 'a list" where
  "insertBy cmp x [] = [x]"
| "insertBy cmp x (y # ys) = (if js_gt0 (cmp x y) then y # insertBy cmp x ys else x # y # ys)"

definition sortBy :: "('a \<Rightarrow> 'a \<Rightarrow> jsnum) \<Rightarrow> 'a list \<Rightarrow> 'a list" where
  "sortBy cmp xs = foldr (insertBy cmp) xs []"

definition clampMonthKeyToOptions :: "string \<Rightarrow> string list \<Rightarrow> string" where
  "clampMonthKeyToOptions target options =
     (if options = [] then target
      else if target \<in> set options then target
      else
        let sorted = sortBy compareMonthKey options
        in (case find (\<lambda>opt. js_le0 (compareMonthKey opt target)) (rev sorted) of
              Some opt \<Rightarrow> opt
            | None \<Rightarrow> hd sorted))"

section \<open>The installed-capacity snapshot\<close>

text \<open>\<open>row[i] ?? ""\<close> and \<open>row[i] || ""\<close>: the cell, or the empty string where the row is
  too short; \<open>row[i]\<close> as an argument of \<open>safeNum\<close>: the cell, or \<open>undefined\<close>.\<close>

definition cellOrEmpty :: "string list \<Rightarrow> nat \<Rightarrow> string" where
  "cellOrEmpty row i = (if i < length row then row ! i else [])"

definition cellAt :: "string list \<Rightarrow> nat \<Rightarrow> jsval" where
  "cellAt row i = (if i < length row then Str (row ! i) else Undefined)"

text \<open>\<open>header.forEach((h, i) => { map[h] = row[i] ?? ""; })\<close>: a later column of the same
  name overwrites an earlier one.\<close>

definition headerMap :: "string list \<Rightarrow> string list \<Rightarrow> (string \<rightharpoonup> string)" where
  "headerMap hdr row =
     foldl (\<lambda>m (i, h). m(h \<mapsto> cellOrEmpty row i)) Map.empty (zip [0..<length hdr] hdr)"

definition getStr :: "('k \<rightharpoonup> string) \<Rightarrow> 'k \<Rightarrow> jsval" where
  "getStr obj k = (case obj k of None \<Rightarrow> Undefined | Some v \<Rightarrow> Str v)"

text \<open>The loop over the sources in \<open>loadCapacitySingleRow\<close>, on the pair of \<open>next\<close> and
  \<open>any\<close>.\<close>

definition overwriteFromMap ::
  "(string \<rightharpoonup> string) \<Rightarrow> capacities \<Rightarrow> capacities \<times> bool" where
  "overwriteFromMap m installed0 =
     foldl (\<lambda>(next, any) s.
              let v = safeNum (getStr m (sourceName s))
              in if isFinite v then (next(s \<mapsto> v), True) else (next, any))
       (installed0, False) SOURCES"

record capacityState =
  installed :: capacities
  capacityCsvMissing :: bool
  capacityCsvMsg :: "string option"

text \<open>The dash in the two messages of a failed load is written as a hyphen here.\<close>

definition capacityFailed :: "capacityState \<Rightarrow> capacityState" where
  "capacityFailed st =
     st\<lparr>capacityCsvMissing := True,
        capacityCsvMsg := Some ''Capacity.csv not loaded - enter values manually.''\<rparr>"

text \<open>
  The response of a fetch is the text of the resource, or \<open>None\<close> when the request
  fails or its status is not ok. The run is the one that is not cancelled.

  The request is sent by the effect that runs after the first render, and \<open>installed\<close>
  in \<open>loadCapacitySingleRow\<close> is the mapping of that render: \<open>captured\<close>. The state the
  response is applied to is the one of the moment it arrives, in which the user may have
  edited a capacity meanwhile.
\<close>

definition loadCapacitySingleRow ::
  "capacities \<Rightarrow> capacityState \<Rightarrow> string option \<Rightarrow> capacityState" where
  "loadCapacitySingleRow captured st response =
     (case response of
        None \<Rightarrow> capacityFailed st
      | Some text \<Rightarrow>
          let c = parseCSVSimple text in
          if header c = [] \<or> rows c = [] then capacityFailed st
          else
            (case overwriteFromMap (headerMap (header c) (hd (rows c))) captured of
               (next, any) \<Rightarrow>
                 if any then st\<lparr>installed := next, capacityCsvMissing := False,
                                capacityCsvMsg := None\<rparr>
                 else st))"

text \<open>\<open>Object.values(installed).some((v) => Number(v) !== 0)\<close>; the keys of \<open>installed\<close>
  are sources.\<close>

definition hasNonZeroLocal :: "capacities \<Rightarrow> bool" where
  "hasNonZeroLocal inst =
     list_ex (\<lambda>s. case inst s of None \<Rightarrow> False | Some v \<Rightarrow> js_neq v (Fin 0)) SOURCES"

text \<open>The input handler of a capacity: \<open>setInstalled((prev) => ({ ...prev, [s]: v }))\<close>
  with \<open>v = safeNum(e.target.value)\<close>.\<close>

definition editInstalled :: "SourceKey \<Rightarrow> string \<Rightarrow> capacityState \<Rightarrow> capacityState" where
  "editInstalled s input st = st\<lparr>installed := (installed st)(s \<mapsto> safeNum (Str input))\<rparr>"

text \<open>The snapshot from the first render to the arrival of the response: the request is
  sent only when no capacity of the first render differs from \<open>0\<close>; \<open>edits\<close> are the
  edits made while the request is under way.\<close>

definition capacityEffect ::
  "capacityState \<Rightarrow> (SourceKey \<times> string) list \<Rightarrow> string option \<Rightarrow> capacityState" where
  "capacityEffect st0 edits response =
     (let live = foldl (\<lambda>st (s, input). editInstalled s input st) st0 edits
      in if hasNonZeroLocal (installed st0) then live
         else loadCapacitySingleRow (installed st0) live response)"

text \<open>The state of the first render when nothing is stored: \<open>0\<close> for every source, no
  message.\<close>

definition defaultCapacities :: capacities where
  "defaultCapacities = foldl (\<lambda>base s. base(s \<mapsto> Fin 0)) Map.empty SOURCES"

definition initialCapacityState :: capacityState where
  "initialCapacityState =
     \<lparr>installed = defaultCapacities, capacityCsvMissing = False, capacityCsvMsg = None\<rparr>"

section \<open>The monthly history\<close>

record MonthRow =
  month :: string
  "values" :: capacities

text \<open>\<open>toLowerCase\<close> on code units below 256.\<close>

definition toLowerChar :: "char \<Rightarrow> char" where
  "toLowerChar c =
     (let n = (of_char c :: nat)
      in if (65 \<le> n \<and> n \<le> 90) \<or> (192 \<le> n \<and> n \<le> 222 \<and> n \<noteq> 215) then char_of (n + 32) else c)"

definition toLowerCase :: "string \<Rightarrow> string" where
  "toLowerCase s = map toLowerChar s"

fun findIndex :: "('a \<Rightarrow> bool) \<Rightarrow> 'a list \<Rightarrow> nat option" where
  "findIndex P [] = None"
| "findIndex P (x # xs) = (if P x then Some 0 else map_option Suc (findIndex P xs))"

text \<open>The test of \<open>/^\d{2}\/\d{4}$/\<close>.\<close>

definition monthKeyShape :: "string \<Rightarrow> bool" where
  "monthKeyShape mk =
     (case mk of
        [m1, m2, sl, y1, y2, y3, y4] \<Rightarrow>
          isDigit m1 \<and> isDigit m2 \<and> sl = CHR ''/'' \<and>
          isDigit y1 \<and> isDigit y2 \<and> isDigit y3 \<and> isDigit y4
      | _ \<Rightarrow> False)"

definition rowValues :: "string list \<Rightarrow> string list \<Rightarrow> capacities" where
  "rowValues hdr row =
     foldl (\<lambda>vals s.
              vals(s \<mapsto> (case findIndex (\<lambda>h. trim h = sourceName s) hdr of
                            Some idx \<Rightarrow> safeNum (cellAt row idx)
                          | None \<Rightarrow> Fin 0)))
       Map.empty SOURCES"

text \<open>The body of the loop over the rows: a row whose month does not pass the test is
  skipped, any other is pushed.\<close>

definition parseRows :: "string list \<Rightarrow> nat \<Rightarrow> string list list \<Rightarrow> MonthRow list" where
  "parseRows hdr monthIdx rs =
     foldl (\<lambda>parsed row.
              let mk = trim (cellOrEmpty row monthIdx)
              in if \<not> monthKeyShape mk then parsed
                 else parsed @ [\<lparr>month = mk, values = rowValues hdr row\<rparr>])
       [] rs"

datatype loadError = HttpError | EmptyCSV | MissingMonthColumn

text \<open>The \<open>try\<close> block of \<open>loadHistory\<close>: what it throws, or the sorted rows.\<close>

definition loadHistory_try :: "string option \<Rightarrow> loadError + MonthRow list" where
  "loadHistory_try response =
     (case response of
        None \<Rightarrow> Inl HttpError
      | Some text \<Rightarrow>
          let c = parseCSVSimple text in
          if header c = [] \<or> rows c = [] then Inl EmptyCSV
          else
            (case findIndex (\<lambda>h. toLowerCase (trim h) = ''month'') (header c) of
               None \<Rightarrow> Inl MissingMonthColumn
             | Some monthIdx \<Rightarrow>
                 Inr (sortBy (\<lambda>a b. compareMonthKey (month a) (month b))
                        (parseRows (header c) monthIdx (rows c)))))"

record historyState =
  history :: "MonthRow list"
  historyError :: "string option"
  startMonth :: string
  endMonth :: string

definition loadHistory :: "historyState \<Rightarrow> string option \<Rightarrow> historyState" where
  "loadHistory st response =
     (case loadHistory_try response of
        Inr parsed \<Rightarrow> st\<lparr>history := parsed, historyError := None\<rparr>
      | Inl e \<Rightarrow>
          st\<lparr>history := [],
             historyError := Some ''capacity.csv not loaded - please ensure /public/data/capacity.csv exists with Month (MM/YYYY) + source columns.''\<rparr>)"

definition monthOptions :: "MonthRow list \<Rightarrow> string list" where
  "monthOptions h = sortBy compareMonthKey (filter (\<lambda>m. m \<noteq> []) (map month h))"

definition latestMonth :: "string list \<Rightarrow> string option" where
  "latestMonth opts = (if opts = [] then None else Some (last opts))"

section \<open>The selected months\<close>

text \<open>\<open>defaultStartMonth\<close>: \<open>null\<close> without a latest month, else the month twelve back
  from it, clamped to the options. The outer \<open>None\<close> is \<open>minusMonths\<close> leaving the model.\<close>

definition defaultStartMonth :: "string list \<Rightarrow> string option option" where
  "defaultStartMonth opts =
     (case latestMonth opts of
        None \<Rightarrow> Some None
      | Some latest \<Rightarrow>
          (case minusMonths latest 12 of
             None \<Rightarrow> None
           | Some candidate \<Rightarrow> Some (Some (clampMonthKeyToOptions candidate opts))))"

text \<open>\<open>a || b\<close> on strings that may be \<open>null\<close> or \<open>undefined\<close>.\<close>

definition orElse :: "string option \<Rightarrow> string option \<Rightarrow> string option" where
  "orElse a b = (case a of Some s \<Rightarrow> (if s \<noteq> [] then Some s else b) | None \<Rightarrow> b)"

definition optionAt :: "string list \<Rightarrow> nat \<Rightarrow> string option" where
  "optionAt opts i = (if i < length opts then Some (opts ! i) else None)"

text \<open>The effect that initialises the selection once the options change. It does
  nothing without options. The result is \<open>None\<close> only where \<open>defaultStartMonth\<close> is.\<close>

definition initSelection :: "historyState \<Rightarrow> historyState option" where
  "initSelection st =
     (let opts = monthOptions (history st) in
      if opts = [] then Some st
      else
        (case defaultStartMonth opts of
           None \<Rightarrow> None
         | Some dflt \<Rightarrow>
             let end = orElse (latestMonth opts) (optionAt opts (length opts - 1));
                 start = orElse (orElse dflt (optionAt opts (length opts - 13)))
                           (optionAt opts 0);
                 newEnd = (if endMonth st \<noteq> [] then clampMonthKeyToOptions (endMonth st) opts
                           else (case end of Some e \<Rightarrow> e | None \<Rightarrow> []));
                 newStart = (if startMonth st \<noteq> [] then clampMonthKeyToOptions (startMonth st) opts
                             else (case start of Some s \<Rightarrow> s | None \<Rightarrow> []))
             in Some (st\<lparr>startMonth := newStart, endMonth := newEnd\<rparr>)))"

text \<open>The effect that enforces start \<open>\<le>\<close> end.\<close>

definition enforceStartLeEnd :: "historyState \<Rightarrow> historyState" where
  "enforceStartLeEnd st =
     (if startMonth st = [] \<or> endMonth st = [] then st
      else if js_gt0 (compareMonthKey (startMonth st) (endMonth st))
           then st\<lparr>startMonth := endMonth st\<rparr>
           else st)"

text \<open>An effect runs after a render in which one of its dependencies has changed. The
  enforcing effect depends on the two selected months; when it moves the start, it runs
  once more, on a state where start and end are the same.\<close>

definition afterRender :: "historyState \<Rightarrow> historyState \<Rightarrow> historyState" where
  "afterRender prev st =
     (if startMonth st = startMonth prev \<and> endMonth st = endMonth prev then st
      else
        let st1 = enforceStartLeEnd st
        in if startMonth st1 = startMonth st then st1 else enforceStartLeEnd st1)"

text \<open>What happens to the history card: the response of the history request arrives, or
  the user picks a start or an end month. The state after a step is the one in which the
  effects have run.\<close>

datatype action = HistoryResponse "string option" | SelectStart string | SelectEnd string

definition step :: "historyState \<Rightarrow> action \<Rightarrow> historyState option" where
  "step st a =
     (case a of
        HistoryResponse response \<Rightarrow>
          map_option (afterRender st) (initSelection (loadHistory st response))
      | SelectStart m \<Rightarrow> Some (afterRender st (st\<lparr>startMonth := m\<rparr>))
      | SelectEnd m \<Rightarrow> Some (afterRender st (st\<lparr>endMonth := m\<rparr>)))"

text \<open>The values of the options a selector offers: the month options, or the empty
  value of the "No data" option.\<close>

definition offered :: "historyState \<Rightarrow> string list" where
  "offered st = (let opts = monthOptions (history st) in if opts = [] then [[]] else opts)"

definition initialState :: historyState where
  "initialState = \<lparr>history = [], historyError = None, startMonth = [], endMonth = []\<rparr>"

inductive reachable :: "historyState \<Rightarrow> bool" where
  reachable_init: "reachable initialState"
| reachable_response:
    "reachable st \<Longrightarrow> step st (HistoryResponse response) = Some st' \<Longrightarrow> reachable st'"
| reachable_start:
    "reachable st \<Longrightarrow> m \<in> set (offered st) \<Longrightarrow> step st (SelectStart m) = Some st' \<Longrightarrow> reachable st'"
| reachable_end:
    "reachable st \<Longrightarrow> m \<in> set (offered st) \<Longrightarrow> step st (SelectEnd m) = Some st' \<Longrightarrow> reachable st'"

section \<open>Totals and net additions\<close>

definition startRow :: "historyState \<Rightarrow> MonthRow option" where
  "startRow st = (if startMonth st = [] then None else find (\<lambda>r. month r = startMonth st) (history st))"

definition endRow :: "historyState \<Rightarrow> MonthRow option" where
  "endRow st = (if endMonth st = [] then None else find (\<lambda>r. month r = endMonth st) (history st))"

record totals =
  per :: capacities
  total :: jsnum

definition rowTotals :: "MonthRow option \<Rightarrow> totals option" where
  "rowTotals row =
     (case row of
        None \<Rightarrow> None
      | Some r \<Rightarrow> Some \<lparr>per = values r, total = sumSources (values r) SOURCES\<rparr>)"

definition startTotals :: "historyState \<Rightarrow> totals option" where
  "startTotals st = rowTotals (startRow st)"

definition endTotals :: "historyState \<Rightarrow> totals option" where
  "endTotals st = rowTotals (endRow st)"

text \<open>\<open>t?.per?.[s]\<close>: \<open>None\<close> stands for \<open>undefined\<close>.\<close>

definition perOf :: "totals option \<Rightarrow> SourceKey \<Rightarrow> jsnum option" where
  "perOf t s = (case t of None \<Rightarrow> None | Some x \<Rightarrow> per x s)"

definition netAdditions :: "totals option \<Rightarrow> totals option \<Rightarrow> totals" where
  "netAdditions st en =
     \<lparr>per = foldl (\<lambda>out s.
                    out(s \<mapsto> (case (perOf st s, perOf en s) of
                                  (Some a, Some b) \<Rightarrow> round2 (js_sub b a)
                                | _ \<Rightarrow> Fin 0)))
              Map.empty SOURCES,
      total = (case (st, en) of
                 (Some s, Some e) \<Rightarrow> round2 (js_sub (total e) (total s))
               | _ \<Rightarrow> Fin 0)\<rparr>"

section \<open>The order of the month keys\<close>

text \<open>The month and the year a key of the shape \<open>MM/YYYY\<close> denotes, the order of the
  keys by year and then by month, and the keys that are well formed: of that shape, with
  a month from 01 to 12.\<close>

definition monthOf :: "string \<Rightarrow> nat" where
  "monthOf key = digitsVal (take 2 key)"

definition yearOf :: "string \<Rightarrow> nat" where
  "yearOf key = digitsVal (drop 3 key)"

definition monthKeyLe :: "string \<Rightarrow> string \<Rightarrow> bool" where
  "monthKeyLe a b = (yearOf a < yearOf b \<or> (yearOf a = yearOf b \<and> monthOf a \<le> monthOf b))"

definition wellFormedMonthKey :: "string \<Rightarrow> bool" where
  "wellFormedMonthKey key = (monthKeyShape key \<and> 1 \<le> monthOf key \<and> monthOf key \<le> 12)"

text \<open>The number of months from 01/0000 to a key.\<close>

definition monthIndex :: "string \<Rightarrow> int" where
  "monthIndex key = 12 * int (yearOf key) + int (monthOf key) - 1"

section \<open>Writing a CSV line\<close>



definition escapeQuotes :: "string \<Rightarrow> string" where
  "escapeQuotes s = concat (map (\<lambda>c. if c = quote then [quote, quote] else [c]) s)"







section \<open>The invariant of the history card\<close>

text \<open>Every row of History has a month of the shape MM/YYYY and a finite value for each
  source; a selected month is of that shape, and a selected start is not after a selected
  end.\<close>

definition historyOk :: "MonthRow list \<Rightarrow> bool" where
  "historyOk h = (\<forall>r\<in>set h. monthKeyShape (month r) \<and> (\<forall>s. \<exists>q. values r s = Some (Fin q)))"

definition selectionOk :: "historyState \<Rightarrow> bool" where
  "selectionOk st =
     (historyOk (history st)
      \<and> (startMonth st = [] \<or> monthKeyShape (startMonth st))
      \<and> (endMonth st = [] \<or> monthKeyShape (endMonth st))
      \<and> (startMonth st = [] \<or> endMonth st = [] \<or> monthKeyLe (startMonth st) (endMonth st)))"

section \<open>An example history\<close>

text \<open>A history file of three months with a Coal column, and the state of the history
  card once it is loaded: the end month is the latest one, the start month the one
  twelve months before it.\<close>

definition exampleCsv :: string where
  "exampleCsv =
     ''Month,Coal'' @ [LF] @ ''01/2022,40'' @ [LF] @ ''01/2023,50'' @ [LF] @ ''01/2024,55''"

definition exampleRow :: "string \<Rightarrow> string \<Rightarrow> MonthRow" where
  "exampleRow m v = \<lparr>month = m, values = rowValues [''Month'', ''Coal''] [m, v]\<rparr>"

definition exampleState :: historyState where
  "exampleState =
     \<lparr>history = [exampleRow ''01/2022'' ''40'', exampleRow ''01/2023'' ''50'',
                 exampleRow ''01/2024'' ''55''],
      historyError = None, startMonth = ''01/2023'', endMonth = ''01/2024''\<rparr>"

text \<open>A history file of two months in which the later value of Coal, \<open>1.005\<close>, is not a
  binary64 value, and the state of the history card once it is loaded.\<close>

definition roundingCsv :: string where
  "roundingCsv = ''Month,Coal'' @ [LF] @ ''01/2023,0'' @ [LF] @ ''01/2024,1.005''"

definition roundingState :: historyState where
  "roundingState =
     \<lparr>history = [exampleRow ''01/2023'' ''0'', exampleRow ''01/2024'' ''1.005''],
      historyError = None, startMonth = ''01/2023'', endMonth = ''01/2024''\<rparr>"

section \<open>Properties of the numbers\<close>

lemma safeNum_getNum: "safeNum (getNum obj k) = Fin (finiteOrZero (obj k))"
  by (simp add: safeNum_def getNum_def finiteOrZero_def split: option.split jsnum.split)

section \<open>Rounding to binary64\<close>

lemma powi2_nonneg: "0 \<le> j \<Longrightarrow> power_int (2::rat) j = 2 ^ nat j"
  by (simp add: power_int_def)

lemma powi2_neg: "0 \<le> j \<Longrightarrow> power_int (2::rat) (- j) = 1 / 2 ^ nat j"
  by (simp add: power_int_minus power_int_def inverse_eq_divide power_one_over)

lemma log2floor_bounds:
  assumes "0 < a"
  shows "power_int 2 (log2floor a) \<le> a" and "a < power_int 2 (log2floor a + 1)"
proof -
  show "power_int 2 (log2floor a) \<le> a"
  proof (cases "1 \<le> a")
    case True
    then have n: "0 < \<lfloor>a\<rfloor>" by simp
    from bitlen_bounds[OF n] have "2 ^ nat (bitlen \<lfloor>a\<rfloor> - 1) \<le> \<lfloor>a\<rfloor>" by simp
    then have "(of_int (2 ^ nat (bitlen \<lfloor>a\<rfloor> - 1)) :: rat) \<le> of_int \<lfloor>a\<rfloor>"
      by (simp only: of_int_le_iff)
    also have "\<dots> \<le> a" by simp
    finally have "(2::rat) ^ nat (bitlen \<lfloor>a\<rfloor> - 1) \<le> a" by simp
    moreover have "1 \<le> bitlen \<lfloor>a\<rfloor>" using n by (simp add: bitlen_alt_def)
    ultimately show ?thesis using True by (simp add: log2floor_def power_int_def)
  next
    case False
    let ?c = "\<lceil>1 / a\<rceil>"
    from False assms have b: "1 < 1 / a" by simp
    then have c: "0 < ?c - 1" by (simp add: less_ceiling_iff)
    from bitlen_bounds[OF c] have "?c - 1 < 2 ^ nat (bitlen (?c - 1))" by simp
    then have "?c \<le> 2 ^ nat (bitlen (?c - 1))" by simp
    then have d: "(of_int ?c :: rat) \<le> of_int (2 ^ nat (bitlen (?c - 1)))"
      by (simp only: of_int_le_iff)
    have "1 / a \<le> of_int ?c" by (rule le_of_int_ceiling)
    also note d
    finally have "1 / a \<le> 2 ^ nat (bitlen (?c - 1))" by simp
    then have "1 / 2 ^ nat (bitlen (?c - 1)) \<le> a"
      using assms by (simp add: field_simps)
    moreover have "0 \<le> bitlen (?c - 1)" by (rule bitlen_nonneg)
    ultimately show ?thesis using False
      by (simp add: log2floor_def powi2_neg)
  qed
  show "a < power_int 2 (log2floor a + 1)"
  proof (cases "1 \<le> a")
    case True
    then have n: "0 < \<lfloor>a\<rfloor>" by simp
    from bitlen_bounds[OF n] have "\<lfloor>a\<rfloor> + 1 \<le> 2 ^ nat (bitlen \<lfloor>a\<rfloor>)" by simp
    then have d: "(of_int (\<lfloor>a\<rfloor> + 1) :: rat) \<le> of_int (2 ^ nat (bitlen \<lfloor>a\<rfloor>))"
      by (simp only: of_int_le_iff)
    have "a < of_int (\<lfloor>a\<rfloor> + 1)" using floor_correct[of a] by simp
    also note d
    finally have "a < 2 ^ nat (bitlen \<lfloor>a\<rfloor>)" by simp
    moreover have "0 \<le> bitlen \<lfloor>a\<rfloor>" by (rule bitlen_nonneg)
    ultimately show ?thesis using True by (simp add: log2floor_def power_int_def)
  next
    case False
    let ?c = "\<lceil>1 / a\<rceil>"
    from False assms have b: "1 < 1 / a" by simp
    then have c: "0 < ?c - 1" by (simp add: less_ceiling_iff)
    have j: "1 \<le> bitlen (?c - 1)" using c by (simp add: bitlen_alt_def)
    from bitlen_bounds[OF c] have "2 ^ nat (bitlen (?c - 1) - 1) \<le> ?c - 1" by simp
    then have "(of_int (2 ^ nat (bitlen (?c - 1) - 1)) :: rat) \<le> of_int (?c - 1)"
      by (simp only: of_int_le_iff)
    also have "of_int (?c - 1) < 1 / a"
      using ceiling_correct[of "1 / a"] by simp
    finally have "2 ^ nat (bitlen (?c - 1) - 1) < 1 / a" by simp
    then have "a < 1 / 2 ^ nat (bitlen (?c - 1) - 1)"
      using assms by (simp add: field_simps)
    moreover have "power_int (2::rat) (- bitlen (?c - 1) + 1) = 1 / 2 ^ nat (bitlen (?c - 1) - 1)"
      using powi2_neg[of "bitlen (?c - 1) - 1"] j by simp
    ultimately show ?thesis using False
      by (simp add: log2floor_def)
  qed
qed


lemma log2floor_eqI:
  assumes "power_int 2 k \<le> a" "a < power_int 2 (k + 1)"
  shows "log2floor a = k"
proof -
  have "(0::rat) < power_int 2 k" by (simp add: power_int_def)
  with assms(1) have a: "0 < a" by linarith
  note b = log2floor_bounds[OF a]
  from b(1) assms(2) have "power_int (2::rat) (log2floor a) < power_int 2 (k + 1)" by simp
  then have "log2floor a < k + 1"
    by (metis not_less power_int_increasing one_le_numeral)
  moreover from b(2) assms(1) have "power_int (2::rat) k < power_int 2 (log2floor a + 1)" by simp
  then have "k < log2floor a + 1"
    by (metis not_less power_int_increasing one_le_numeral)
  ultimately show ?thesis by simp
qed

lemma roundHalfEven_of_int: "roundHalfEven (of_int n) = n"
  by (simp add: roundHalfEven_def)

lemma roundHalfEven_eqI:
  assumes "\<bar>q - of_int m\<bar> < 1 / 2 \<or> (\<bar>q - of_int m\<bar> = 1 / 2 \<and> even m)"
  shows "roundHalfEven q = m"
proof -
  consider (lo) "q < of_int m" | (hi) "of_int m \<le> q" by linarith
  then show ?thesis
  proof cases
    case lo
    with assms have b: "of_int m - 1 / 2 \<le> q" by auto
    have f: "\<lfloor>q\<rfloor> = m - 1"
      by (rule floor_unique) (use lo b in auto)
    show ?thesis
    proof (cases "q = of_int m - 1 / 2")
      case True
      with assms have "even m" by auto
      then show ?thesis using True f by (simp add: roundHalfEven_def Let_def)
    next
      case False
      with b have "of_int m - 1 / 2 < q" by simp
      then show ?thesis using f by (simp add: roundHalfEven_def Let_def)
    qed
  next
    case hi
    with assms have b: "q \<le> of_int m + 1 / 2" by auto
    have f: "\<lfloor>q\<rfloor> = m"
      by (rule floor_unique) (use hi b in auto)
    show ?thesis
    proof (cases "q = of_int m + 1 / 2")
      case True
      with assms have "even m" by auto
      then show ?thesis using True f by (simp add: roundHalfEven_def Let_def)
    next
      case False
      with b have "q < of_int m + 1 / 2" by simp
      then show ?thesis using f by (simp add: roundHalfEven_def Let_def)
    qed
  qed
qed

lemma binary64_normal:
  assumes "power_int 2 (e + 52) \<le> x" "x < power_int 2 (e + 53)" "- 1074 \<le> e"
  shows "binary64 x =
           (if (power_int 2 1024 :: rat) \<le> of_int (roundHalfEven (x / power_int 2 e)) * power_int 2 e
            then PInf
            else Fin (of_int (roundHalfEven (x / power_int 2 e)) * power_int 2 e))"
proof -
  have "(0::rat) < power_int 2 (e + 52)" by (simp add: power_int_def)
  with assms(1) have x: "0 < x" by linarith
  have "log2floor x = e + 52"
    by (rule log2floor_eqI) (use assms in \<open>simp_all add: add.commute add.left_commute\<close>)
  then have l: "log2floor \<bar>x\<bar> = e + 52" using x by simp
  have m: "max (e + 52 - 52) (- 1074) = e" using assms(3) by simp
  show ?thesis using x unfolding binary64_def Let_def l m by simp
qed

lemma binary64_eqI:
  assumes "power_int 2 (e + 52) \<le> x" "x < power_int 2 (e + 53)" "- 1074 \<le> e"
    and "\<bar>x / power_int 2 e - of_int m\<bar> < 1 / 2
         \<or> (\<bar>x / power_int 2 e - of_int m\<bar> = 1 / 2 \<and> even m)"
    and "of_int m * power_int 2 e < (power_int 2 1024 :: rat)"
  shows "binary64 x = Fin (of_int m * power_int 2 e)"
  using assms(5) unfolding binary64_normal[OF assms(1-3)] roundHalfEven_eqI[OF assms(4)]
  by simp

lemma binary64_overflow:
  assumes "power_int 2 1024 \<le> x"
  shows "binary64 x = PInf"
proof -
  have "(0::rat) < power_int 2 1024" by simp
  with assms have x: "0 < x" by linarith
  define k where "k = log2floor x"
  define e where "e = max (k - 52) (- 1074)"
  define P where "P = (power_int 2 e :: rat)"
  define R where "R = (of_int (roundHalfEven (x / P)) :: rat)"
  define M where "M = (power_int 2 1024 :: rat)"
  note b = log2floor_bounds[OF x, folded k_def]
  from b(2) assms have "power_int (2::rat) 1024 < power_int 2 (k + 1)" by linarith
  then have k: "1024 \<le> k"
    using power_int_increasing[of "k + 1" 1024 "2::rat"] by (cases "1024 \<le> k") auto
  then have e: "e = k - 52" by (simp add: e_def)
  have p: "0 < P" by (simp add: P_def power_int_def)
  have pk: "power_int 2 52 * P = (power_int 2 k :: rat)"
    unfolding e P_def by (simp add: power_int_diff)
  with b(1) have "power_int 2 52 * P \<le> x" by simp
  then have q: "power_int 2 52 \<le> x / P" using p by (simp add: field_simps)
  have f: "2 ^ 52 \<le> \<lfloor>x / P\<rfloor>" using q by (simp add: le_floor_iff)
  have "\<lfloor>x / P\<rfloor> \<le> roundHalfEven (x / P)"
    by (simp add: roundHalfEven_def Let_def)
  with f have "2 ^ 52 \<le> roundHalfEven (x / P)" by linarith
  then have "(of_int (2 ^ 52) :: rat) \<le> R"
    unfolding R_def by (simp only: of_int_le_iff)
  then have "power_int 2 52 \<le> R" by simp
  then have "power_int 2 52 * P \<le> R * P"
    using p by (rule mult_right_mono[OF _ less_imp_le])
  moreover have "M \<le> power_int 2 k"
    unfolding M_def by (rule power_int_increasing[OF k]) simp
  ultimately have "M \<le> R * P" using pk by linarith
  then show ?thesis using x
    unfolding binary64_def Let_def abs_of_pos[OF x] k_def[symmetric] e_def[symmetric]
      P_def[symmetric] R_def[symmetric] M_def[symmetric]
    by simp
qed

lemma binary64_minus: "binary64 (- x) = (case binary64 x of Fin r \<Rightarrow> Fin (- r) | PInf \<Rightarrow> NInf
                                         | NInf \<Rightarrow> PInf | NaN \<Rightarrow> NaN)"
  by (simp add: binary64_def Let_def)

lemma binary64_int:
  assumes "\<bar>n\<bar> < 2 ^ 53"
  shows "binary64 (of_int n) = Fin (of_int n)"
proof -
  have pos: "binary64 (of_int k) = Fin (of_int k)" if k: "0 < k" "k < 2 ^ 53" for k :: int
  proof -
    let ?x = "of_int k :: rat"
    let ?j = "log2floor ?x"
    have x: "0 < ?x" using k by simp
    note b = log2floor_bounds[OF x]
    have "?x < power_int 2 53" using k(2)
      by (metis of_int_less_numeral_power_cancel_iff power_int_numeral)
    with b(1) have "power_int (2::rat) ?j < power_int 2 53" by simp
    then have j1: "?j < 53"
      using power_int_increasing[of 53 ?j "2::rat"] by (cases "?j < 53") auto
    have "(1::rat) \<le> ?x" using k by simp
    with b(2) have "power_int (2::rat) 0 < power_int 2 (?j + 1)" by simp
    then have j0: "0 \<le> ?j"
      using power_int_increasing[of "?j + 1" 0 "2::rat"] by (cases "0 \<le> ?j") auto
    have e: "max (?j - 52) (- 1074) = - (52 - ?j)" using j0 by simp
    have p: "power_int (2::rat) (- (52 - ?j)) = 1 / 2 ^ nat (52 - ?j)"
      using powi2_neg[of "52 - ?j"] j1 by simp
    have q: "?x / power_int 2 (- (52 - ?j)) = of_int (k * 2 ^ nat (52 - ?j))"
      unfolding p by simp
    have r: "of_int (k * 2 ^ nat (52 - ?j)) * power_int (2::rat) (- (52 - ?j)) = ?x"
      unfolding p by simp
    have "?x < power_int 2 1024"
      using \<open>?x < power_int 2 53\<close> power_int_increasing[of 53 1024 "2::rat"] by simp
    then show ?thesis
      using x unfolding binary64_def Let_def abs_of_pos[OF x] e q roundHalfEven_of_int r
      by simp
  qed
  consider "n = 0" | "0 < n" | "n < 0" by linarith
  then show ?thesis
  proof cases
    case 1 then show ?thesis by (simp add: binary64_def)
  next
    case 2 then show ?thesis using pos[of n] assms by simp
  next
    case 3
    then have "binary64 (of_int (- n)) = Fin (of_int (- n))" using pos[of "- n"] assms by simp
    then show ?thesis using binary64_minus[of "of_int (- n)"] by simp
  qed
qed

lemma binary64_0: "binary64 0 = Fin 0"
  by (simp add: binary64_def)

lemma binary64_nat: "n < 2 ^ 53 \<Longrightarrow> binary64 (of_nat n) = Fin (of_nat n)"
  using binary64_int[of "int n"] by simp

lemma js_sub_nat:
  assumes "a < 2 ^ 52" "b < 2 ^ 52"
  shows "js_sub (Fin (of_nat a)) (Fin (of_nat b)) = Fin (of_nat a - of_nat b)"
proof -
  have "\<bar>int a - int b\<bar> < 2 ^ 53" using assms by simp
  from binary64_int[OF this] show ?thesis by (simp add: js_sub_def)
qed

section \<open>Digit strings\<close>

lemma isDigit_not_ws: "isDigit c \<Longrightarrow> \<not> isWhiteSpace c"
  by (auto simp: isDigit_def isWhiteSpace_def)

lemma isDigit_not_letter: "isDigit x \<Longrightarrow> x \<notin> set ''xXoObB-+I/''"
  by (auto simp: isDigit_def)

lemma trim_id:
  assumes "s \<noteq> []" "\<not> isWhiteSpace (hd s)" "\<not> isWhiteSpace (last s)"
  shows "trim s = s"
proof -
  have a: "dropWhile isWhiteSpace s = s"
    using assms by (cases s) auto
  have b: "dropWhile isWhiteSpace (rev s) = rev s"
    using assms by (cases "rev s") (auto simp: hd_rev[symmetric])
  show ?thesis by (simp add: trim_def a b)
qed

lemma trim_digits: "list_all isDigit ds \<Longrightarrow> trim ds = ds"
proof (cases "ds = []")
  case True then show ?thesis by (simp add: trim_def)
next
  case False
  assume "list_all isDigit ds"
  with False have "isDigit (hd ds)" "isDigit (last ds)"
    by (auto simp: list_all_iff)
  with False show ?thesis by (simp add: trim_id isDigit_not_ws)
qed

lemma nonDecimal_digits: "list_all isDigit ds \<Longrightarrow> nonDecimal ds = None"
proof (cases ds)
  case Nil
  then show ?thesis by (simp add: nonDecimal_def)
next
  case (Cons z r)
  assume d: "list_all isDigit ds"
  show ?thesis
  proof (cases r)
    case Nil
    with Cons show ?thesis by (simp add: nonDecimal_def)
  next
    case (Cons x r')
    with d \<open>ds = z # r\<close> have "isDigit x" by simp
    from isDigit_not_letter[OF this] show ?thesis
      using Cons \<open>ds = z # r\<close> by (simp add: nonDecimal_def)
  qed
qed

lemma digitsVal_snoc: "digitsVal (ds @ [c]) = digitsVal ds * 10 + digitVal c"
  by (simp add: digitsVal_def)

lemma digitVal_less: "isDigit c \<Longrightarrow> digitVal c < 10"
  by (auto simp: isDigit_def digitVal_def)

lemma digitsVal_less: "list_all isDigit ds \<Longrightarrow> digitsVal ds < 10 ^ length ds"
proof (induction ds rule: rev_induct)
  case Nil
  then show ?case by (simp add: digitsVal_def)
next
  case (snoc c ds)
  then have "digitsVal ds < 10 ^ length ds" "digitVal c < 10"
    by (simp_all add: digitVal_less)
  then show ?case by (simp add: digitsVal_snoc)
qed

text \<open>A string of at most fifteen digits denotes an integer below \<open>2^53\<close>, which is a
  binary64 value.\<close>

lemma digitsVal_small:
  assumes "list_all isDigit ds" "length ds \<le> 15"
  shows "digitsVal ds < 2 ^ 53"
proof -
  have "(10::nat) ^ length ds \<le> 10 ^ 15"
    by (rule power_increasing[OF assms(2)]) simp
  with digitsVal_less[OF assms(1)] show ?thesis by simp
qed

lemma unsignedDecimal_digits:
  assumes ne: "ds \<noteq> []" and d: "list_all isDigit ds" and l: "length ds \<le> 15"
  shows "unsignedDecimal ds = Fin (of_nat (digitsVal ds))"
proof -
  have tw: "takeWhile isDigit ds = ds" and dw: "dropWhile isDigit ds = []"
    using d by (auto simp: list_all_iff)
  have "isDigit (hd ds)" using ne d by (cases ds) auto
  from isDigit_not_letter[OF this] have "ds \<noteq> ''Infinity''" by auto
  then show ?thesis using ne
    by (simp add: unsignedDecimal_def tw dw exponentPart_def pow10_def
        binary64_nat[OF digitsVal_small[OF d l]])
qed

lemma Number_str_digits:
  assumes ne: "ds \<noteq> []" and d: "list_all isDigit ds" and l: "length ds \<le> 15"
  shows "Number_str ds = Fin (of_nat (digitsVal ds))"
proof -
  from ne obtain c r where ds: "ds = c # r" by (cases ds) auto
  have "isDigit c" using d ds by simp
  from isDigit_not_letter[OF this] have c: "c \<noteq> CHR ''-''" "c \<noteq> CHR ''+''" by auto
  have "Number_str ds = unsignedDecimal ds"
    unfolding Number_str_def trim_digits[OF d] nonDecimal_digits[OF d] Let_def
    using c by (simp add: ds)
  then show ?thesis
    using unsignedDecimal_digits[OF ne d l] by simp
qed

section \<open>Month keys of the shape MM/YYYY\<close>

lemma monthKeyShape_cases:
  assumes "monthKeyShape key"
  obtains m1 m2 y1 y2 y3 y4 where
    "key = [m1, m2, CHR ''/'', y1, y2, y3, y4]"
    "list_all isDigit [m1, m2]" "list_all isDigit [y1, y2, y3, y4]"
  using assms by (auto simp: monthKeyShape_def split: list.splits)

lemma splitOn_digits:
  "list_all isDigit ds \<Longrightarrow> splitOn (CHR ''/'') (ds @ CHR ''/'' # rest) = ds # splitOn (CHR ''/'') rest"
proof (induction ds)
  case Nil
  then show ?case by simp
next
  case (Cons d ds)
  from Cons.prems have "isDigit d" by simp
  from isDigit_not_letter[OF this] have "d \<noteq> CHR ''/''" by auto
  with Cons show ?case by simp
qed

lemma splitOn_digits_end:
  "list_all isDigit ds \<Longrightarrow> splitOn (CHR ''/'') ds = [ds]"
proof (induction ds)
  case Nil
  then show ?case by simp
next
  case (Cons d ds)
  from Cons.prems have "isDigit d" by simp
  from isDigit_not_letter[OF this] have "d \<noteq> CHR ''/''" by auto
  with Cons show ?case by simp
qed

lemma monthKeyParts_shape:
  assumes "monthKeyShape key"
  shows "monthKeyParts key = (Some (Fin (of_nat (monthOf key))), Some (Fin (of_nat (yearOf key))))"
proof -
  from assms obtain m1 m2 y1 y2 y3 y4 where
    key: "key = [m1, m2, CHR ''/'', y1, y2, y3, y4]"
    and dm: "list_all isDigit [m1, m2]" and dy: "list_all isDigit [y1, y2, y3, y4]"
    by (rule monthKeyShape_cases)
  have "splitOn (CHR ''/'') key = [[m1, m2], [y1, y2, y3, y4]]"
    using splitOn_digits[OF dm, of "[y1, y2, y3, y4]"] splitOn_digits_end[OF dy]
    by (simp add: key)
  then show ?thesis
    using Number_str_digits[OF _ dm] Number_str_digits[OF _ dy]
    by (simp add: monthKeyParts_def monthOf_def yearOf_def key)
qed

lemma yearOf_less: "monthKeyShape key \<Longrightarrow> yearOf key < 10000"
proof -
  assume "monthKeyShape key"
  then obtain m1 m2 y1 y2 y3 y4 where
    key: "key = [m1, m2, CHR ''/'', y1, y2, y3, y4]"
    and dy: "list_all isDigit [y1, y2, y3, y4]"
    by (rule monthKeyShape_cases)
  from digitsVal_less[OF dy] show ?thesis by (simp add: yearOf_def key)
qed

lemma monthOf_less: "monthKeyShape key \<Longrightarrow> monthOf key < 100"
proof -
  assume "monthKeyShape key"
  then obtain m1 m2 y1 y2 y3 y4 where
    key: "key = [m1, m2, CHR ''/'', y1, y2, y3, y4]"
    and dm: "list_all isDigit [m1, m2]"
    by (rule monthKeyShape_cases)
  from digitsVal_less[OF dm] show ?thesis by (simp add: monthOf_def key)
qed

lemma compareMonthKey_shape:
  assumes "monthKeyShape a" "monthKeyShape b"
  shows "compareMonthKey a b =
           Fin (if yearOf a \<noteq> yearOf b then of_nat (yearOf a) - of_nat (yearOf b)
                else of_nat (monthOf a) - of_nat (monthOf b))"
proof -
  have y: "yearOf a < 2 ^ 52" "yearOf b < 2 ^ 52"
    using yearOf_less[OF assms(1)] yearOf_less[OF assms(2)] by simp_all
  have m: "monthOf a < 2 ^ 52" "monthOf b < 2 ^ 52"
    using monthOf_less[OF assms(1)] monthOf_less[OF assms(2)] by simp_all
  show ?thesis
    by (simp add: compareMonthKey_def monthKeyParts_shape[OF assms(1)]
        monthKeyParts_shape[OF assms(2)] js_neq_def js_sub_nat[OF y] js_sub_nat[OF m])
qed

lemma gt0_compareMonthKey_shape:
  assumes "monthKeyShape a" "monthKeyShape b"
  shows "js_gt0 (compareMonthKey a b) \<longleftrightarrow> \<not> monthKeyLe a b"
  by (auto simp: compareMonthKey_shape[OF assms] monthKeyLe_def)

lemma le0_compareMonthKey_shape:
  assumes "monthKeyShape a" "monthKeyShape b"
  shows "js_le0 (compareMonthKey a b) \<longleftrightarrow> monthKeyLe a b"
  by (auto simp: compareMonthKey_shape[OF assms] monthKeyLe_def)

lemma monthKeyLe_refl: "monthKeyLe a a"
  by (simp add: monthKeyLe_def)

lemma monthKeyLe_trans: "monthKeyLe a b \<Longrightarrow> monthKeyLe b c \<Longrightarrow> monthKeyLe a c"
  by (auto simp: monthKeyLe_def)

lemma monthKeyLe_total: "monthKeyLe a b \<or> monthKeyLe b a"
  by (auto simp: monthKeyLe_def)

section \<open>Sorting by month key\<close>

lemma set_insertBy: "set (insertBy cmp x ys) = insert x (set ys)"
  by (induction ys) auto

lemma set_sortBy: "set (sortBy cmp xs) = set xs"
  by (induction xs) (simp_all add: sortBy_def set_insertBy)

lemma length_insertBy: "length (insertBy cmp x ys) = Suc (length ys)"
  by (induction ys) auto

lemma length_sortBy: "length (sortBy cmp xs) = length xs"
  by (induction xs) (simp_all add: sortBy_def length_insertBy)

lemma sortBy_Cons: "sortBy cmp (x # xs) = insertBy cmp x (sortBy cmp xs)"
  by (simp add: sortBy_def)

lemma sortBy_Nil: "sortBy cmp [] = []"
  by (simp add: sortBy_def)

lemma sorted_insertBy_key:
  assumes "monthKeyShape (f x)" "\<forall>y\<in>set ys. monthKeyShape (f y)"
    and "sorted_wrt (\<lambda>a b. monthKeyLe (f a) (f b)) ys"
  shows "sorted_wrt (\<lambda>a b. monthKeyLe (f a) (f b))
           (insertBy (\<lambda>a b. compareMonthKey (f a) (f b)) x ys)"
  using assms(2,3)
proof (induction ys)
  case Nil
  then show ?case by simp
next
  case (Cons y ys)
  have gt: "js_gt0 (compareMonthKey (f x) (f y)) \<longleftrightarrow> \<not> monthKeyLe (f x) (f y)"
    using gt0_compareMonthKey_shape[OF assms(1)] Cons.prems(1) by simp
  show ?case
  proof (cases "monthKeyLe (f x) (f y)")
    case True
    then have "\<forall>z\<in>set ys. monthKeyLe (f x) (f z)"
      using Cons.prems(2) monthKeyLe_trans by auto
    with True Cons.prems(2) show ?thesis by (simp add: gt)
  next
    case False
    then have "monthKeyLe (f y) (f x)" using monthKeyLe_total by blast
    with False Cons show ?thesis by (simp add: gt set_insertBy)
  qed
qed

lemma sorted_sortBy_key:
  assumes "\<forall>y\<in>set xs. monthKeyShape (f y)"
  shows "sorted_wrt (\<lambda>a b. monthKeyLe (f a) (f b)) (sortBy (\<lambda>a b. compareMonthKey (f a) (f b)) xs)"
  using assms
proof (induction xs)
  case Nil
  then show ?case by (simp add: sortBy_Nil)
next
  case (Cons x xs)
  then show ?case
    by (simp add: sortBy_Cons sorted_insertBy_key set_sortBy)
qed

lemma sorted_sortBy_keys:
  assumes "\<forall>y\<in>set xs. monthKeyShape y"
  shows "sorted_wrt monthKeyLe (sortBy compareMonthKey xs)"
  using sorted_sortBy_key[of xs "\<lambda>k. k"] assms by simp

text \<open>No key compares greater than itself, whatever its shape, so insertion puts a row
  before the rows of the same month: the sort keeps rows of one month in their order.\<close>

lemma compareMonthKey_self: "\<not> js_gt0 (compareMonthKey a a)"
proof -
  obtain am ay where p: "monthKeyParts a = (am, ay)" by (cases "monthKeyParts a")
  have s: "\<not> js_gt0 (subParts v v)" for v
  proof (cases v)
    case None
    then show ?thesis by simp
  next
    case (Some n)
    then show ?thesis by (cases n) (simp_all add: js_sub_def binary64_0)
  qed
  show ?thesis by (simp add: compareMonthKey_def p s)
qed

lemma filter_insertBy_key:
  "filter (\<lambda>r. f r = k) (insertBy (\<lambda>a b. compareMonthKey (f a) (f b)) x ys) =
     (if f x = k then x # filter (\<lambda>r. f r = k) ys else filter (\<lambda>r. f r = k) ys)"
  by (induction ys) (auto simp: compareMonthKey_self)

lemma filter_sortBy_key:
  "filter (\<lambda>r. f r = k) (sortBy (\<lambda>a b. compareMonthKey (f a) (f b)) xs) = filter (\<lambda>r. f r = k) xs"
  by (induction xs) (simp_all add: sortBy_Nil sortBy_Cons filter_insertBy_key)

lemma find_filter: "find P xs = (case filter P xs of [] \<Rightarrow> None | x # _ \<Rightarrow> Some x)"
  by (induction xs) auto

lemma find_split:
  "find P xs = Some x \<Longrightarrow> \<exists>as bs. xs = as @ x # bs \<and> P x \<and> (\<forall>a\<in>set as. \<not> P a)"
proof (induction xs)
  case Nil
  then show ?case by simp
next
  case (Cons y ys)
  show ?case
  proof (cases "P y")
    case True
    with Cons.prems have "y = x" by simp
    with True show ?thesis by (intro exI[of _ "[]"] exI[of _ ys]) simp
  next
    case False
    with Cons obtain as bs where "ys = as @ x # bs" "P x" "\<forall>a\<in>set as. \<not> P a" by auto
    with False show ?thesis by (intro exI[of _ "y # as"] exI[of _ bs]) simp
  qed
qed

lemma find_rev_sorted_greatest:
  assumes "sorted_wrt monthKeyLe xs" "find P (rev xs) = Some x"
  shows "x \<in> set xs \<and> P x \<and> (\<forall>y\<in>set xs. P y \<longrightarrow> monthKeyLe y x)"
proof -
  from find_split[OF assms(2)] obtain as bs where
    r: "rev xs = as @ x # bs" and px: "P x" and nas: "\<forall>a\<in>set as. \<not> P a" by blast
  from r have xs: "xs = rev bs @ x # rev as"
    by (metis rev_append rev.simps(2) rev_rev_ident append_Cons append_Nil append.assoc)
  have "\<forall>y\<in>set bs. monthKeyLe y x"
    using assms(1) unfolding xs by (auto simp: sorted_wrt_append)
  then have "\<forall>y\<in>set xs. P y \<longrightarrow> monthKeyLe y x"
    using nas unfolding xs by (auto simp: monthKeyLe_refl)
  with px xs show ?thesis by auto
qed

lemma hd_sorted_least:
  assumes "sorted_wrt monthKeyLe xs" "xs \<noteq> []"
  shows "hd xs \<in> set xs \<and> (\<forall>y\<in>set xs. monthKeyLe (hd xs) y)"
  using assms by (cases xs) (auto simp: monthKeyLe_refl)

section \<open>Rated capacity\<close>

lemma ratedBySource_apply:
  "ratedBySource inst plf s =
     Some (round2 (js_mul (Fin (finiteOrZero (inst s)))
                     (js_div (Fin (finiteOrZero (plf s))) (Fin 100))))"
  by (cases s) (simp_all add: ratedBySource_def SOURCES_def safeNum_getNum)

lemma ratedTotal_sum:
  "ratedTotal inst plf =
     foldl js_add (Fin 0) (map (\<lambda>s. Fin (finiteOrZero (ratedBySource inst plf s))) SOURCES)"
  by (simp add: ratedTotal_def sumSources_def safeNum_getNum SOURCES_def)

lemma round2_steps:
  assumes "binary64 (q * 100) = Fin t" "\<lfloor>t + 1 / 2\<rfloor> = n" "binary64 (of_int n / 100) = r"
  shows "round2 (Fin q) = r"
  using assms by (simp add: round2_def)

lemma round2_overflow: "power_int 2 1024 \<le> q * 100 \<Longrightarrow> round2 (Fin q) = PInf"
  by (simp add: round2_def binary64_overflow inf_of_sign_def)

text \<open>
  C1, amended. For every installed-capacity mapping, every load-factor mapping and every
  source, with \<open>c\<close> the installed capacity and \<open>p\<close> the load factor, a value that is not
  finite counting as 0: the rated capacity of the source is \<open>round2\<close> of the product of
  \<open>c\<close> and the quotient of \<open>p\<close> by 100, each operation rounded to binary64. The rated total
  is the sum, from the left and rounded at each step, of the eight per-source rated
  values, one that is not finite counting as 0. Installed 100 at a load factor of 85
  gives 85.
\<close>

theorem rated_capacity_formula:
  "ratedBySource inst plf s =
     Some (round2 (js_mul (Fin (finiteOrZero (inst s)))
                     (js_div (Fin (finiteOrZero (plf s))) (Fin 100))))
   \<and> ratedTotal inst plf =
     foldl js_add (Fin 0)
       (map (\<lambda>s. Fin (finiteOrZero (ratedBySource inst plf s))) SOURCES)
   \<and> ratedBySource (\<lambda>_. Some (Fin 100)) (\<lambda>_. Some (Fin 85)) Coal = Some (Fin 85)"
proof (intro conjI)
  show "ratedBySource inst plf s =
     Some (round2 (js_mul (Fin (finiteOrZero (inst s)))
                     (js_div (Fin (finiteOrZero (plf s))) (Fin 100))))"
    by (rule ratedBySource_apply)
  show "ratedTotal inst plf =
     foldl js_add (Fin 0)
       (map (\<lambda>s. Fin (finiteOrZero (ratedBySource inst plf s))) SOURCES)"
    by (rule ratedTotal_sum)
  have a: "binary64 (85 / 100) = Fin (7656119366529843 / 2 ^ 53)"
    using binary64_eqI[of "- 53" "85 / 100" 7656119366529843] by simp
  have b: "binary64 (100 * (7656119366529843 / 2 ^ 53)) = Fin 85"
    using binary64_eqI[of "- 46" "100 * (7656119366529843 / 2 ^ 53)" 5981343255101440] by simp
  have c: "binary64 (85 * 100) = Fin 8500"
    using binary64_int[of 8500] by simp
  have d: "\<lfloor>(8500::rat) + 1 / 2\<rfloor> = 8500" by (rule floor_unique) simp_all
  have e: "binary64 (of_int 8500 / 100) = Fin 85"
    using binary64_int[of 85] by simp
  have r: "round2 (Fin 85) = Fin 85" by (rule round2_steps[OF c d e])
  show "ratedBySource (\<lambda>_. Some (Fin 100)) (\<lambda>_. Some (Fin 85)) Coal = Some (Fin 85)"
    using a b r by (simp add: ratedBySource_apply finiteOrZero_def)
qed

text \<open>
  The order of the operations matters. At an installed capacity of 1.5 and a load factor
  of 15 the rated capacity is 0.22, while \<open>round2\<close> of 1.5 times 15 over 100 is 0.23:
  the quotient of 15 by 100 is rounded to a value below 0.15, and the product with 1.5 to
  a value below 0.225. At an installed capacity of \<open>2^1023\<close> and a load factor of 100 the
  rated capacity of every source is \<open>+\<infinity>\<close>, and the rated total is 0.
\<close>

theorem ratedBySource_rounds_each_step:
  "ratedBySource (\<lambda>_. Some (Fin (3 / 2))) (\<lambda>_. Some (Fin 15)) Coal = Some (binary64 (22 / 100))
   \<and> round2 (js_div (js_mul (Fin (3 / 2)) (Fin 15)) (Fin 100)) = binary64 (23 / 100)
   \<and> binary64 (22 / 100) \<noteq> binary64 (23 / 100)
   \<and> ratedBySource (\<lambda>_. Some (Fin (2 ^ 1023))) (\<lambda>_. Some (Fin 100)) Coal = Some PInf
   \<and> ratedTotal (\<lambda>_. Some (Fin (2 ^ 1023))) (\<lambda>_. Some (Fin 100)) = Fin 0"
proof (intro conjI)
  have v22: "binary64 (22 / 100) = Fin (7926335344172073 / 2 ^ 55)"
    using binary64_eqI[of "- 55" "22 / 100" 7926335344172073] by simp
  have v23: "binary64 (23 / 100) = Fin (8286623314361713 / 2 ^ 55)"
    using binary64_eqI[of "- 55" "23 / 100" 8286623314361713] by simp
  show "binary64 (22 / 100) \<noteq> binary64 (23 / 100)"
    unfolding v22 v23 by simp
  have a: "binary64 (15 / 100) = Fin (5404319552844595 / 2 ^ 55)"
    using binary64_eqI[of "- 55" "15 / 100" 5404319552844595] by simp
  have b: "binary64 (3 / 2 * (5404319552844595 / 2 ^ 55)) = Fin (8106479329266892 / 2 ^ 55)"
    using binary64_eqI[of "- 55" "3 / 2 * (5404319552844595 / 2 ^ 55)" 8106479329266892]
    by simp
  have c: "binary64 (8106479329266892 / 2 ^ 55 * 100) = Fin (6333186975989759 / 2 ^ 48)"
    using binary64_eqI[of "- 48" "8106479329266892 / 2 ^ 55 * 100" 6333186975989759] by simp
  have d: "\<lfloor>(6333186975989759 / 2 ^ 48 :: rat) + 1 / 2\<rfloor> = 22"
    by (rule floor_unique) simp_all
  have e: "binary64 (of_int 22 / 100) = binary64 (22 / 100)" by simp
  have r: "round2 (Fin (8106479329266892 / 2 ^ 55)) = binary64 (22 / 100)"
    by (rule round2_steps[OF c d e])
  show "ratedBySource (\<lambda>_. Some (Fin (3 / 2))) (\<lambda>_. Some (Fin 15)) Coal = Some (binary64 (22 / 100))"
    using a b r by (simp add: ratedBySource_apply finiteOrZero_def)
  have f: "binary64 (3 / 2 * 15) = Fin (45 / 2)"
    using binary64_eqI[of "- 48" "3 / 2 * 15" 6333186975989760] by simp
  have g: "binary64 (45 / 2 / 100) = Fin (8106479329266893 / 2 ^ 55)"
    using binary64_eqI[of "- 55" "45 / 2 / 100" 8106479329266893] by simp
  have h: "binary64 (8106479329266893 / 2 ^ 55 * 100) = Fin (45 / 2)"
    using binary64_eqI[of "- 48" "8106479329266893 / 2 ^ 55 * 100" 6333186975989760] by simp
  have i: "\<lfloor>(45 / 2 :: rat) + 1 / 2\<rfloor> = 23"
    by (rule floor_unique) simp_all
  have j: "binary64 (of_int 23 / 100) = binary64 (23 / 100)" by simp
  have s: "round2 (Fin (8106479329266893 / 2 ^ 55)) = binary64 (23 / 100)"
    by (rule round2_steps[OF h i j])
  show "round2 (js_div (js_mul (Fin (3 / 2)) (Fin 15)) (Fin 100)) = binary64 (23 / 100)"
    unfolding js_mul.simps f js_div.simps using g s by simp
  have k: "binary64 (100 / 100) = Fin 1" using binary64_int[of 1] by simp
  have l: "binary64 (2 ^ 1023 * 1) = Fin (2 ^ 1023)"
    using binary64_eqI[of 971 "2 ^ 1023 * 1" "2 ^ 52"] by simp
  have m: "round2 (Fin (2 ^ 1023)) = PInf"
    by (rule round2_overflow) simp
  show p: "ratedBySource (\<lambda>_. Some (Fin (2 ^ 1023))) (\<lambda>_. Some (Fin 100)) Coal = Some PInf"
    using k l m by (simp add: ratedBySource_apply finiteOrZero_def)
  have q: "ratedBySource (\<lambda>_. Some (Fin (2 ^ 1023))) (\<lambda>_. Some (Fin 100)) s = Some PInf" for s
    using p by (simp add: ratedBySource_apply)
  show "ratedTotal (\<lambda>_. Some (Fin (2 ^ 1023))) (\<lambda>_. Some (Fin 100)) = Fin 0"
    unfolding ratedTotal_sum q by (simp add: SOURCES_def finiteOrZero_def binary64_0)
qed

section \<open>Clamping a month to the options\<close>

lemmas monthKey_eval = monthKeyShape_def isDigit_def yearOf_def monthOf_def digitsVal_def
  digitVal_def monthKeyLe_def

lemma clampMonthKeyToOptions_other:
  assumes t: "monthKeyShape target" and o: "list_all monthKeyShape opts"
    and ne: "opts \<noteq> []" and nm: "target \<notin> set opts"
  shows "clampMonthKeyToOptions target opts \<in> set opts \<and>
         (if \<exists>opt\<in>set opts. monthKeyLe opt target
          then monthKeyLe (clampMonthKeyToOptions target opts) target \<and>
               (\<forall>opt\<in>set opts. monthKeyLe opt target \<longrightarrow>
                  monthKeyLe opt (clampMonthKeyToOptions target opts))
          else (\<forall>opt\<in>set opts. monthKeyLe (clampMonthKeyToOptions target opts) opt))"
proof -
  let ?sorted = "sortBy compareMonthKey opts"
  let ?P = "\<lambda>opt. js_le0 (compareMonthKey opt target)"
  have shape: "\<forall>y\<in>set opts. monthKeyShape y" using o by (simp add: list_all_iff)
  have srt: "sorted_wrt monthKeyLe ?sorted" by (rule sorted_sortBy_keys[OF shape])
  have st: "set ?sorted = set opts" by (rule set_sortBy)
  have sne: "?sorted \<noteq> []" using ne st by (metis set_empty)
  have P: "\<forall>opt\<in>set opts. ?P opt \<longleftrightarrow> monthKeyLe opt target"
    using shape t by (simp add: le0_compareMonthKey_shape)
  show ?thesis
  proof (cases "find ?P (rev ?sorted)")
    case None
    then have no: "\<not> (\<exists>opt\<in>set opts. monthKeyLe opt target)"
      using P st by (auto simp: find_None_iff)
    have "clampMonthKeyToOptions target opts = hd ?sorted"
      using ne nm None by (simp add: clampMonthKeyToOptions_def)
    with hd_sorted_least[OF srt sne] no st show ?thesis by auto
  next
    case (Some r)
    have c: "clampMonthKeyToOptions target opts = r"
      using ne nm Some by (simp add: clampMonthKeyToOptions_def)
    from find_rev_sorted_greatest[OF srt Some]
    have "r \<in> set opts" "?P r" "\<forall>y\<in>set opts. ?P y \<longrightarrow> monthKeyLe y r"
      using st by auto
    with P c show ?thesis by auto
  qed
qed

text \<open>
  C5. \<open>clampMonthKeyToOptions\<close> returns the target when there are no options or the
  target is one of them. Otherwise, for month keys of the shape MM/YYYY, it returns an
  option: the greatest option that is not after the target when there is one, else the
  smallest option. With the options 01/2023, 06/2023, 01/2024 the targets 03/2023 and
  12/2022 both give 01/2023.
\<close>

theorem clampMonthKeyToOptions_spec:
  "(opts = [] \<or> target \<in> set opts \<longrightarrow> clampMonthKeyToOptions target opts = target)
   \<and> (monthKeyShape target \<and> list_all monthKeyShape opts \<and> opts \<noteq> [] \<and> target \<notin> set opts \<longrightarrow>
        clampMonthKeyToOptions target opts \<in> set opts \<and>
        (if \<exists>opt\<in>set opts. monthKeyLe opt target
         then monthKeyLe (clampMonthKeyToOptions target opts) target \<and>
              (\<forall>opt\<in>set opts. monthKeyLe opt target \<longrightarrow>
                 monthKeyLe opt (clampMonthKeyToOptions target opts))
         else (\<forall>opt\<in>set opts. monthKeyLe (clampMonthKeyToOptions target opts) opt)))
   \<and> clampMonthKeyToOptions ''03/2023'' [''01/2023'', ''06/2023'', ''01/2024''] = ''01/2023''
   \<and> clampMonthKeyToOptions ''12/2022'' [''01/2023'', ''06/2023'', ''01/2024''] = ''01/2023''"
proof (intro conjI impI)
  assume "opts = [] \<or> target \<in> set opts"
  then show "clampMonthKeyToOptions target opts = target"
    by (auto simp: clampMonthKeyToOptions_def)
next
  assume h: "monthKeyShape target \<and> list_all monthKeyShape opts \<and> opts \<noteq> [] \<and> target \<notin> set opts"
  then show "clampMonthKeyToOptions target opts \<in> set opts"
    using clampMonthKeyToOptions_other[of target opts] by blast
  from h show "if \<exists>opt\<in>set opts. monthKeyLe opt target
         then monthKeyLe (clampMonthKeyToOptions target opts) target \<and>
              (\<forall>opt\<in>set opts. monthKeyLe opt target \<longrightarrow>
                 monthKeyLe opt (clampMonthKeyToOptions target opts))
         else (\<forall>opt\<in>set opts. monthKeyLe (clampMonthKeyToOptions target opts) opt)"
    using clampMonthKeyToOptions_other[of target opts] by blast
next
  show "clampMonthKeyToOptions ''03/2023'' [''01/2023'', ''06/2023'', ''01/2024''] = ''01/2023''"
    by (simp add: clampMonthKeyToOptions_def sortBy_Cons sortBy_Nil gt0_compareMonthKey_shape
        le0_compareMonthKey_shape monthKey_eval)
next
  show "clampMonthKeyToOptions ''12/2022'' [''01/2023'', ''06/2023'', ''01/2024''] = ''01/2023''"
    by (simp add: clampMonthKeyToOptions_def sortBy_Cons sortBy_Nil gt0_compareMonthKey_shape
        le0_compareMonthKey_shape monthKey_eval)
qed

theorem clampMonthKeyToOptions_witness:
  "clampMonthKeyToOptions ''06/2023'' [''01/2023'', ''06/2023'', ''01/2024''] = ''06/2023''
   \<and> clampMonthKeyToOptions ''03/2023'' [''01/2023'', ''06/2023'', ''01/2024'']
       \<in> set [''01/2023'', ''06/2023'', ''01/2024'']
   \<and> monthKeyLe (clampMonthKeyToOptions ''03/2023'' [''01/2023'', ''06/2023'', ''01/2024'']) ''03/2023''
   \<and> monthKeyLe ''01/2023'' (clampMonthKeyToOptions ''03/2023'' [''01/2023'', ''06/2023'', ''01/2024''])
   \<and> monthKeyLe (clampMonthKeyToOptions ''12/2022'' [''01/2023'', ''06/2023'', ''01/2024'']) ''06/2023''"
proof -
  let ?opts = "[''01/2023'', ''06/2023'', ''01/2024'']"
  have m: "?opts = [] \<or> ''06/2023'' \<in> set ?opts" by simp
  have h1: "monthKeyShape ''03/2023'' \<and> list_all monthKeyShape ?opts \<and> ?opts \<noteq> []
            \<and> ''03/2023'' \<notin> set ?opts"
    by (simp add: monthKey_eval)
  have h2: "monthKeyShape ''12/2022'' \<and> list_all monthKeyShape ?opts \<and> ?opts \<noteq> []
            \<and> ''12/2022'' \<notin> set ?opts"
    by (simp add: monthKey_eval)
  have e1: "\<exists>opt\<in>set ?opts. monthKeyLe opt ''03/2023''"
    by (simp add: monthKey_eval)
  have e2: "\<not> (\<exists>opt\<in>set ?opts. monthKeyLe opt ''12/2022'')"
    by (simp add: monthKey_eval)
  have le: "monthKeyLe ''01/2023'' ''03/2023''"
    by (simp add: monthKey_eval)
  note s1 = clampMonthKeyToOptions_spec[of ?opts "''06/2023''"]
  note s2 = clampMonthKeyToOptions_spec[of ?opts "''03/2023''"]
  note s3 = clampMonthKeyToOptions_spec[of ?opts "''12/2022''"]
  note a = s1[THEN conjunct1, THEN mp, OF m]
  note i2 = s2[THEN conjunct2, THEN conjunct1, THEN mp, OF h1, unfolded if_P[OF e1]]
  note i3 = s3[THEN conjunct2, THEN conjunct1, THEN mp, OF h2, unfolded if_not_P[OF e2]]
  note b = i2[THEN conjunct1]
  note c = i2[THEN conjunct2, THEN conjunct1]
  note d = i2[THEN conjunct2, THEN conjunct2]
  note e = i3[THEN conjunct2]
  have d': "monthKeyLe ''01/2023'' (clampMonthKeyToOptions ''03/2023'' ?opts)"
    using d le by simp
  have e': "monthKeyLe (clampMonthKeyToOptions ''12/2022'' ?opts) ''06/2023''"
    using e by simp
  from a b c d' e' show ?thesis by (intro conjI)
qed

section \<open>Rendering integers\<close>

declare showNat.simps [simp del]

declare minusMonths_loop.simps [simp del]










section \<open>Going back by months\<close>

lemma minusMonths_loop_index:
  "0 \<le> left \<Longrightarrow> 1 \<le> m \<Longrightarrow> m \<le> 12 \<Longrightarrow>
     minusMonths_loop m y left =
       ((12 * y + m - 1 - left) mod 12 + 1, (12 * y + m - 1 - left) div 12)"
proof (induction m y left rule: minusMonths_loop.induct)
  case (1 m y left)
  show ?case
  proof (cases "0 < left")
    case False
    with 1(3) have l: "left = 0" by simp
    have "(12 * y + m - 1) mod 12 + 1 = m" "(12 * y + m - 1) div 12 = y"
      using 1(4,5) by presburger+
    then show ?thesis by (subst minusMonths_loop.simps) (simp add: l)
  next
    case pos: True
    show ?thesis
    proof (cases "m - 1 \<le> 0")
      case True
      then have m: "m = 1" using 1(4) by simp
      have step: "minusMonths_loop m y left = minusMonths_loop 12 (y - 1) (left - 1)"
        using pos True by (subst minusMonths_loop.simps) simp
      have ih: "minusMonths_loop 12 (y - 1) (left - 1) =
              ((12 * (y - 1) + 12 - 1 - (left - 1)) mod 12 + 1,
               (12 * (y - 1) + 12 - 1 - (left - 1)) div 12)"
        using 1(1)[OF pos True] pos by simp
      have eq: "12 * (y - 1) + 12 - 1 - (left - 1) = 12 * y + m - 1 - left"
        by (simp add: m)
      show ?thesis by (simp only: step ih eq)
    next
      case False
      have step: "minusMonths_loop m y left = minusMonths_loop (m - 1) y (left - 1)"
        using pos False by (subst minusMonths_loop.simps) simp
      have ih: "minusMonths_loop (m - 1) y (left - 1) =
              ((12 * y + (m - 1) - 1 - (left - 1)) mod 12 + 1,
               (12 * y + (m - 1) - 1 - (left - 1)) div 12)"
      proof (rule 1(2)[OF pos False])
        show "0 \<le> left - 1" using pos by simp
        show "1 \<le> m - 1" using False by simp
        show "m - 1 \<le> 12" using 1(5) by simp
      qed
      have eq: "12 * y + (m - 1) - 1 - (left - 1) = 12 * y + m - 1 - left"
        by simp
      show ?thesis by (simp only: step ih eq)
    qed
  qed
qed

lemma intPart_of_nat: "intPart (Some (Fin (of_nat k))) = Some (int k)"
  by (simp add: intPart_def)

lemma minusMonths_shape:
  assumes "monthKeyShape key"
  shows "minusMonths key left =
           (case minusMonths_loop (int (monthOf key)) (int (yearOf key)) left of
              (m, y) \<Rightarrow> Some (padStart2 (showInt m) @ ''/'' @ showInt y))"
  by (simp add: minusMonths_def monthKeyParts_shape[OF assms] intPart_of_nat)

lemma minusMonths_wellFormed:
  assumes wf: "wellFormedMonthKey key"
  shows "minusMonths key (int n) =
           Some (padStart2 (showInt ((monthIndex key - int n) mod 12 + 1)) @ ''/'' @
                 showInt ((monthIndex key - int n) div 12))"
proof -
  from wf have sh: "monthKeyShape key" and m: "1 \<le> int (monthOf key)" "int (monthOf key) \<le> 12"
    by (simp_all add: wellFormedMonthKey_def)
  have "minusMonths_loop (int (monthOf key)) (int (yearOf key)) (int n) =
          ((monthIndex key - int n) mod 12 + 1, (monthIndex key - int n) div 12)"
    using minusMonths_loop_index[OF _ m, of "int n" "int (yearOf key)"]
    by (simp add: monthIndex_def)
  then show ?thesis by (simp add: minusMonths_shape[OF sh])
qed





section \<open>The CSV parser\<close>



lemma parseLine_loop_escaped:
  "parseLine_loop (escapeQuotes s @ rest) out cur True = parseLine_loop rest out (cur @ s) True"
  by (induction s arbitrary: cur) (simp_all add: escapeQuotes_def)




lemma parseLine_loop_nonempty: "parseLine_loop line out cur inQuotes \<noteq> []"
  by (induction line out cur inQuotes rule: parseLine_loop.induct) auto


section \<open>Trimming and lines\<close>








lemma splitLines_nonempty: "splitLines s \<noteq> []"
  by (induction s rule: splitLines.induct) (auto split: list.splits)










lemma parseLine_nonempty: "parseLine line \<noteq> []"
  by (simp add: parseLine_def parseLine_loop_nonempty)

lemma parseCSVSimple_shape:
  "list_all (\<lambda>r. r \<noteq> []) (rows (parseCSVSimple text))
   \<and> (header (parseCSVSimple text) = []) = (csvLines text = [])
   \<and> length (rows (parseCSVSimple text)) = length (csvLines text) - 1"
  by (cases "csvLines text")
     (simp_all add: parseCSVSimple_def parseLine_nonempty list_all_iff)

lemma parseLine_loop_unterminated:
  "parseLine_loop (quote # escapeQuotes body) out cur False = out @ [trim (cur @ body)]"
proof -
  have "parseLine_loop (quote # escapeQuotes body) out cur False =
          parseLine_loop (escapeQuotes body @ []) out cur True"
    by simp
  also have "\<dots> = parseLine_loop [] out (cur @ body) True"
    by (rule parseLine_loop_escaped)
  finally show ?thesis by simp
qed

text \<open>
  C10, amended. The parser is total: it has no failing branch, and for every text it
  returns a header and rows. Every line that is not blank gives a list of at least one
  field; the header is empty only when the text has no such line. When a quote opens a
  field and the rest of the line holds quotes only in pairs, the field never ends: the
  rest of the line, commas included, goes to that one last field, without the opening
  quote, with each pair of quotes as one quote, and trimmed.
\<close>

theorem parseCSVSimple_total:
  "parseLine line \<noteq> []
   \<and> list_all (\<lambda>r. r \<noteq> []) (rows (parseCSVSimple text))
   \<and> (header (parseCSVSimple text) = []) = (csvLines text = [])
   \<and> length (rows (parseCSVSimple text)) = length (csvLines text) - 1
   \<and> parseLine_loop (quote # escapeQuotes body) out cur False = out @ [trim (cur @ body)]
   \<and> parseLine (quote # escapeQuotes body) = [trim body]"
  using parseLine_nonempty[of line] parseCSVSimple_shape[of "text"]
    parseLine_loop_unterminated[of body out cur] parseLine_loop_unterminated[of body "[]" "[]"]
  by (simp add: parseLine_def)

text \<open>A field that is opened and never closed keeps a quote of its text: the line
  \<open>"a""b\<close> gives the one field \<open>a"b\<close>.\<close>

theorem parseLine_unterminated_keeps_quote:
  "parseLine ([quote] @ ''a'' @ [quote, quote] @ ''b'') = [''a'' @ [quote] @ ''b'']
   \<and> quote \<in> set (hd (parseLine ([quote] @ ''a'' @ [quote, quote] @ ''b'')))"
  by (simp add: parseLine_def trim_def isWhiteSpace_def quote_def comma_def)

section \<open>Loading the history\<close>

lemma parseRows_foldl:
  "foldl (\<lambda>parsed row.
            let mk = trim (cellOrEmpty row monthIdx)
            in if \<not> monthKeyShape mk then parsed
               else parsed @ [\<lparr>month = mk, values = rowValues hdr row\<rparr>])
     acc rs =
   acc @ map (\<lambda>row. \<lparr>month = trim (cellOrEmpty row monthIdx), values = rowValues hdr row\<rparr>)
           (filter (\<lambda>row. monthKeyShape (trim (cellOrEmpty row monthIdx))) rs)"
  by (induction rs arbitrary: acc) (simp_all add: Let_def)

lemma parseRows_map_filter:
  "parseRows hdr monthIdx rs =
     map (\<lambda>row. \<lparr>month = trim (cellOrEmpty row monthIdx), values = rowValues hdr row\<rparr>)
       (filter (\<lambda>row. monthKeyShape (trim (cellOrEmpty row monthIdx))) rs)"
  unfolding parseRows_def by (simp add: parseRows_foldl)

lemma map_month_parseRows:
  "map month (parseRows hdr monthIdx rs) =
     filter monthKeyShape (map (\<lambda>row. trim (cellOrEmpty row monthIdx)) rs)"
  by (simp add: parseRows_map_filter filter_map comp_def)

lemma parseRows_shape: "r \<in> set (parseRows hdr monthIdx rs) \<Longrightarrow> monthKeyShape (month r)"
  by (auto simp: parseRows_map_filter)

lemma map_insertBy_key:
  "map f (insertBy (\<lambda>a b. cmp (f a) (f b)) x ys) = insertBy cmp (f x) (map f ys)"
  by (induction ys) auto

lemma map_sortBy_key:
  "map f (sortBy (\<lambda>a b. cmp (f a) (f b)) xs) = sortBy cmp (map f xs)"
  by (induction xs) (simp_all add: sortBy_Nil sortBy_Cons map_insertBy_key)

lemma loadHistory_try_Inr:
  assumes "loadHistory_try response = Inr h"
  shows "\<exists>text monthIdx. response = Some text
           \<and> header (parseCSVSimple text) \<noteq> [] \<and> rows (parseCSVSimple text) \<noteq> []
           \<and> findIndex (\<lambda>h. toLowerCase (trim h) = ''month'') (header (parseCSVSimple text)) = Some monthIdx
           \<and> h = sortBy (\<lambda>a b. compareMonthKey (month a) (month b))
                   (parseRows (header (parseCSVSimple text)) monthIdx (rows (parseCSVSimple text)))"
  using assms
  by (auto simp: loadHistory_try_def Let_def split: option.splits if_splits)

lemma monthKeyShape_nonempty: "monthKeyShape m \<Longrightarrow> m \<noteq> []"
  by (auto simp: monthKeyShape_def)

lemma insertBy_sorted_front:
  assumes "monthKeyShape x" "\<forall>y\<in>set ys. monthKeyShape y \<and> monthKeyLe x y"
  shows "insertBy compareMonthKey x ys = x # ys"
  using assms by (cases ys) (simp_all add: gt0_compareMonthKey_shape)

lemma sortBy_sorted_id:
  "\<forall>y\<in>set xs. monthKeyShape y \<Longrightarrow> sorted_wrt monthKeyLe xs \<Longrightarrow> sortBy compareMonthKey xs = xs"
  by (induction xs) (simp_all add: sortBy_Nil sortBy_Cons insertBy_sorted_front)

lemma loadHistory_try_months:
  assumes "loadHistory_try response = Inr h"
  shows "(\<forall>r\<in>set h. monthKeyShape (month r))"
    and "sorted_wrt (\<lambda>a b. monthKeyLe (month a) (month b)) h"
    and "monthOptions h = map month h"
proof -
  from loadHistory_try_Inr[OF assms] obtain t monthIdx where
    h: "h = sortBy (\<lambda>a b. compareMonthKey (month a) (month b))
              (parseRows (header (parseCSVSimple t)) monthIdx (rows (parseCSVSimple t)))"
    by blast
  show sh: "\<forall>r\<in>set h. monthKeyShape (month r)"
    by (simp add: h set_sortBy parseRows_shape)
  show srt: "sorted_wrt (\<lambda>a b. monthKeyLe (month a) (month b)) h"
    unfolding h by (rule sorted_sortBy_key) (simp add: parseRows_shape)
  have ne: "filter (\<lambda>m. m \<noteq> []) (map month h) = map month h"
    using sh by (induction h) (auto simp: monthKeyShape_nonempty)
  have "sorted_wrt monthKeyLe (map month h)"
    using srt by (simp add: sorted_wrt_map)
  then show "monthOptions h = map month h"
    using sh by (simp add: monthOptions_def ne sortBy_sorted_id)
qed

lemma rowValues_apply:
  "rowValues hdr row s =
     Some (case findIndex (\<lambda>h. trim h = sourceName s) hdr of
             Some idx \<Rightarrow> safeNum (cellAt row idx)
           | None \<Rightarrow> Fin 0)"
  by (cases s) (simp_all add: rowValues_def SOURCES_def)

lemma loadHistory_try_Some:
  assumes "header (parseCSVSimple t) \<noteq> []" "rows (parseCSVSimple t) \<noteq> []"
    and "findIndex (\<lambda>h. toLowerCase (trim h) = ''month'') (header (parseCSVSimple t)) = Some monthIdx"
  shows "loadHistory_try (Some t) =
           Inr (sortBy (\<lambda>a b. compareMonthKey (month a) (month b))
                  (parseRows (header (parseCSVSimple t)) monthIdx (rows (parseCSVSimple t))))"
  using assms by (simp add: loadHistory_try_def Let_def)

lemma loadHistory_history:
  "history (loadHistory st response) = (case loadHistory_try response of Inr h \<Rightarrow> h | Inl e \<Rightarrow> [])"
  by (simp add: loadHistory_def split: sum.splits)

lemmas csv_eval = parseCSVSimple_def csvLines_def parseLine_def trim_def isWhiteSpace_def
  LF_def CR_def quote_def comma_def

lemma csv_month_coal_1:
  "parseCSVSimple (''Month,Coal'' @ [LF] @ ''13/2024,5'' @ [LF] @ ''1/24,6'' @ [LF] @ ''01/2023,7'') =
     \<lparr>header = [''Month'', ''Coal''],
      rows = [[''13/2024'', ''5''], [''1/24'', ''6''], [''01/2023'', ''7'']]\<rparr>"
  by (simp add: csv_eval)

lemma csv_month_coal_2:
  "parseCSVSimple (''Month,Coal'' @ [LF] @ ''01/2024,1'' @ [LF] @ ''01/2024,2'') =
     \<lparr>header = [''Month'', ''Coal''], rows = [[''01/2024'', ''1''], [''01/2024'', ''2'']]\<rparr>"
  by (simp add: csv_eval)

lemma findIndex_month_coal:
  "findIndex (\<lambda>h. toLowerCase (trim h) = ''month'') [''Month'', ''Coal''] = Some 0"
  by (simp add: toLowerCase_def toLowerChar_def trim_def isWhiteSpace_def char_of_def
      bit_Suc_0_iff)

text \<open>
  C2, amended. After a successful load, the months of History are the values of the
  Month column, trimmed, of the data rows in which that value is two digits, a slash and
  four digits, in ascending order; the month options are the same list. So a row whose
  month is not of that shape, as \<open>1/24\<close>, is left out of History and of the options; the
  month itself is not checked to lie between 01 and 12.
\<close>

theorem loadHistory_months:
  "(loadHistory_try response = Inr h \<longrightarrow>
      (\<exists>t monthIdx. response = Some t
         \<and> findIndex (\<lambda>h. toLowerCase (trim h) = ''month'') (header (parseCSVSimple t)) = Some monthIdx
         \<and> map month h =
             sortBy compareMonthKey
               (filter monthKeyShape
                  (map (\<lambda>row. trim (cellOrEmpty row monthIdx)) (rows (parseCSVSimple t)))))
      \<and> monthOptions h = map month h
      \<and> (\<forall>m\<in>set (monthOptions h). monthKeyShape m))
   \<and> \<not> monthKeyShape ''1/24''"
proof (intro conjI impI)
  assume a: "loadHistory_try response = Inr h"
  from loadHistory_try_Inr[OF a] obtain t monthIdx where
    r: "response = Some t"
    and f: "findIndex (\<lambda>h. toLowerCase (trim h) = ''month'') (header (parseCSVSimple t)) = Some monthIdx"
    and h: "h = sortBy (\<lambda>a b. compareMonthKey (month a) (month b))
              (parseRows (header (parseCSVSimple t)) monthIdx (rows (parseCSVSimple t)))"
    by blast
  have "map month h =
          sortBy compareMonthKey
            (filter monthKeyShape
               (map (\<lambda>row. trim (cellOrEmpty row monthIdx)) (rows (parseCSVSimple t))))"
    by (simp add: h map_sortBy_key map_month_parseRows)
  with r f show "\<exists>t monthIdx. response = Some t
         \<and> findIndex (\<lambda>h. toLowerCase (trim h) = ''month'') (header (parseCSVSimple t)) = Some monthIdx
         \<and> map month h =
             sortBy compareMonthKey
               (filter monthKeyShape
                  (map (\<lambda>row. trim (cellOrEmpty row monthIdx)) (rows (parseCSVSimple t))))"
    by blast
  show "monthOptions h = map month h"
    by (rule loadHistory_try_months(3)[OF a])
  then show "\<forall>m\<in>set (monthOptions h). monthKeyShape m"
    using loadHistory_try_months(1)[OF a] by simp
next
  show "\<not> monthKeyShape ''1/24''" by (simp add: monthKeyShape_def)
qed

theorem loadHistory_months_witness:
  "loadHistory_try (Some (''Month,Coal'' @ [LF] @ ''13/2024,5'' @ [LF] @ ''1/24,6'' @ [LF] @ ''01/2023,7'')) =
     Inr (sortBy (\<lambda>a b. compareMonthKey (month a) (month b))
            (parseRows [''Month'', ''Coal''] 0
               [[''13/2024'', ''5''], [''1/24'', ''6''], [''01/2023'', ''7'']]))
   \<and> monthOptions (sortBy (\<lambda>a b. compareMonthKey (month a) (month b))
            (parseRows [''Month'', ''Coal''] 0
               [[''13/2024'', ''5''], [''1/24'', ''6''], [''01/2023'', ''7'']])) =
       [''01/2023'', ''13/2024'']
   \<and> ''1/24'' \<notin> set [''01/2023'', ''13/2024'']"
proof -
  let ?t = "''Month,Coal'' @ [LF] @ ''13/2024,5'' @ [LF] @ ''1/24,6'' @ [LF] @ ''01/2023,7''"
  let ?h = "sortBy (\<lambda>a b. compareMonthKey (month a) (month b))
            (parseRows [''Month'', ''Coal''] 0
               [[''13/2024'', ''5''], [''1/24'', ''6''], [''01/2023'', ''7'']])"
  have l: "loadHistory_try (Some ?t) = Inr ?h"
    unfolding loadHistory_try_def Let_def option.case csv_month_coal_1 csv.select_convs
      findIndex_month_coal
    by simp
  note s = loadHistory_months[of "Some ?t" ?h, THEN conjunct1, THEN mp, OF l]
  have m: "map month ?h = [''01/2023'', ''13/2024'']"
    by (simp add: map_sortBy_key map_month_parseRows cellOrEmpty_def trim_def isWhiteSpace_def
        sortBy_Cons sortBy_Nil gt0_compareMonthKey_shape monthKey_eval)
  from s have "monthOptions ?h = map month ?h" by blast
  with m have o: "monthOptions ?h = [''01/2023'', ''13/2024'']" by simp
  from l o show ?thesis by simp
qed

text \<open>A row with the month \<open>13/2024\<close> passes the test of the shape: it is in History and
  among the month options.\<close>

theorem loadHistory_keeps_month_13:
  "map month (history (loadHistory initialState
      (Some (''Month,Coal'' @ [LF] @ ''13/2024,5'' @ [LF] @ ''1/24,6'' @ [LF] @ ''01/2023,7'')))) =
     [''01/2023'', ''13/2024'']
   \<and> monthOptions (history (loadHistory initialState
      (Some (''Month,Coal'' @ [LF] @ ''13/2024,5'' @ [LF] @ ''1/24,6'' @ [LF] @ ''01/2023,7'')))) =
     [''01/2023'', ''13/2024'']
   \<and> \<not> wellFormedMonthKey ''13/2024''"
proof -
  let ?t = "''Month,Coal'' @ [LF] @ ''13/2024,5'' @ [LF] @ ''1/24,6'' @ [LF] @ ''01/2023,7''"
  let ?h = "sortBy (\<lambda>a b. compareMonthKey (month a) (month b))
            (parseRows [''Month'', ''Coal''] 0
               [[''13/2024'', ''5''], [''1/24'', ''6''], [''01/2023'', ''7'']])"
  have l: "loadHistory_try (Some ?t) = Inr ?h"
    unfolding loadHistory_try_def Let_def option.case csv_month_coal_1 csv.select_convs
      findIndex_month_coal
    by simp
  have m: "map month ?h = [''01/2023'', ''13/2024'']"
    by (simp add: map_sortBy_key map_month_parseRows cellOrEmpty_def trim_def isWhiteSpace_def
        sortBy_Cons sortBy_Nil gt0_compareMonthKey_shape monthKey_eval)
  have o: "monthOptions ?h = [''01/2023'', ''13/2024'']"
    using loadHistory_try_months(3)[OF l] m by simp
  have w: "\<not> wellFormedMonthKey ''13/2024''"
    by (simp add: wellFormedMonthKey_def monthKey_eval)
  have hst: "history (loadHistory initialState (Some ?t)) = ?h"
    unfolding loadHistory_history l by simp
  show ?thesis unfolding hst using m o w by (intro conjI)
qed

lemma loadHistory_try_stable:
  assumes "h = sortBy (\<lambda>a b. compareMonthKey (month a) (month b)) parsed"
  shows "length h = length parsed"
    and "filter (\<lambda>r. month r = k) h = filter (\<lambda>r. month r = k) parsed"
    and "find (\<lambda>r. month r = k) h = find (\<lambda>r. month r = k) parsed"
  unfolding assms
  by (simp_all add: length_sortBy filter_sortBy_key find_filter)

lemma startRow_loaded:
  "loadHistory_try response = Inr h \<Longrightarrow> m \<noteq> [] \<Longrightarrow>
     startRow ((loadHistory st response)\<lparr>startMonth := m\<rparr>) = find (\<lambda>r. month r = m) h"
  by (simp add: startRow_def loadHistory_history)

text \<open>
  C3, amended. After every successful history load, History is sorted ascending by month
  key. It holds one entry for every data row whose month has the shape MM/YYYY, rows of
  the same month included, and the sort keeps such rows in the order of the file. The row
  looked up for a selected month is the first of them: the first parsed row of a month
  is the one whose values are used.
\<close>

theorem loadHistory_sorted_stable:
  "loadHistory_try response = Inr h \<longrightarrow>
     sorted_wrt (\<lambda>a b. monthKeyLe (month a) (month b)) h
     \<and> (\<exists>t monthIdx. response = Some t
          \<and> findIndex (\<lambda>h. toLowerCase (trim h) = ''month'') (header (parseCSVSimple t)) = Some monthIdx
          \<and> (let parsed = map (\<lambda>row. \<lparr>month = trim (cellOrEmpty row monthIdx),
                                         values = rowValues (header (parseCSVSimple t)) row\<rparr>)
                              (filter (\<lambda>row. monthKeyShape (trim (cellOrEmpty row monthIdx)))
                                 (rows (parseCSVSimple t)))
              in length h = length parsed
                 \<and> (\<forall>k. filter (\<lambda>r. month r = k) h = filter (\<lambda>r. month r = k) parsed)
                 \<and> (\<forall>st. startRow (st\<lparr>history := h\<rparr>) =
                           (if startMonth st = [] then None
                            else find (\<lambda>r. month r = startMonth st) parsed))
                 \<and> (\<forall>st. endRow (st\<lparr>history := h\<rparr>) =
                           (if endMonth st = [] then None
                            else find (\<lambda>r. month r = endMonth st) parsed))))"
proof (intro impI conjI)
  assume a: "loadHistory_try response = Inr h"
  show "sorted_wrt (\<lambda>a b. monthKeyLe (month a) (month b)) h"
    by (rule loadHistory_try_months(2)[OF a])
  from loadHistory_try_Inr[OF a] obtain t monthIdx where
    r: "response = Some t"
    and f: "findIndex (\<lambda>h. toLowerCase (trim h) = ''month'') (header (parseCSVSimple t)) = Some monthIdx"
    and h: "h = sortBy (\<lambda>a b. compareMonthKey (month a) (month b))
              (parseRows (header (parseCSVSimple t)) monthIdx (rows (parseCSVSimple t)))"
    by blast
  note st = loadHistory_try_stable[OF h]
  show "\<exists>t monthIdx. response = Some t
          \<and> findIndex (\<lambda>h. toLowerCase (trim h) = ''month'') (header (parseCSVSimple t)) = Some monthIdx
          \<and> (let parsed = map (\<lambda>row. \<lparr>month = trim (cellOrEmpty row monthIdx),
                                         values = rowValues (header (parseCSVSimple t)) row\<rparr>)
                              (filter (\<lambda>row. monthKeyShape (trim (cellOrEmpty row monthIdx)))
                                 (rows (parseCSVSimple t)))
              in length h = length parsed
                 \<and> (\<forall>k. filter (\<lambda>r. month r = k) h = filter (\<lambda>r. month r = k) parsed)
                 \<and> (\<forall>st. startRow (st\<lparr>history := h\<rparr>) =
                           (if startMonth st = [] then None
                            else find (\<lambda>r. month r = startMonth st) parsed))
                 \<and> (\<forall>st. endRow (st\<lparr>history := h\<rparr>) =
                           (if endMonth st = [] then None
                            else find (\<lambda>r. month r = endMonth st) parsed)))"
    unfolding Let_def parseRows_map_filter[symmetric]
    using r f st by (intro exI[of _ t] exI[of _ monthIdx]) (simp add: startRow_def endRow_def)
qed

theorem loadHistory_sorted_stable_witness:
  "loadHistory_try (Some (''Month,Coal'' @ [LF] @ ''01/2024,1'' @ [LF] @ ''01/2024,2'')) =
     Inr (sortBy (\<lambda>a b. compareMonthKey (month a) (month b))
            (parseRows [''Month'', ''Coal''] 0 [[''01/2024'', ''1''], [''01/2024'', ''2'']]))
   \<and> sorted_wrt (\<lambda>a b. monthKeyLe (month a) (month b))
        (sortBy (\<lambda>a b. compareMonthKey (month a) (month b))
            (parseRows [''Month'', ''Coal''] 0 [[''01/2024'', ''1''], [''01/2024'', ''2'']]))"
proof -
  let ?t = "''Month,Coal'' @ [LF] @ ''01/2024,1'' @ [LF] @ ''01/2024,2''"
  let ?h = "sortBy (\<lambda>a b. compareMonthKey (month a) (month b))
            (parseRows [''Month'', ''Coal''] 0 [[''01/2024'', ''1''], [''01/2024'', ''2'']])"
  have l: "loadHistory_try (Some ?t) = Inr ?h"
    unfolding loadHistory_try_def Let_def option.case csv_month_coal_2 csv.select_convs
      findIndex_month_coal
    by simp
  note s = loadHistory_sorted_stable[of "Some ?t" ?h, THEN mp, OF l, THEN conjunct1]
  from l s show ?thesis by (intro conjI)
qed

text \<open>Two rows of the month \<open>01/2024\<close> are both in History, and the row found for that
  month is the first one of the file, with the value 1, not the last one.\<close>

theorem loadHistory_keeps_duplicates:
  "map month (history (loadHistory initialState
      (Some (''Month,Coal'' @ [LF] @ ''01/2024,1'' @ [LF] @ ''01/2024,2'')))) =
     [''01/2024'', ''01/2024'']
   \<and> map_option (\<lambda>r. values r Coal)
        (startRow ((loadHistory initialState
           (Some (''Month,Coal'' @ [LF] @ ''01/2024,1'' @ [LF] @ ''01/2024,2'')))
             \<lparr>startMonth := ''01/2024''\<rparr>)) =
     Some (Some (Fin 1))"
proof -
  let ?t = "''Month,Coal'' @ [LF] @ ''01/2024,1'' @ [LF] @ ''01/2024,2''"
  let ?p = "parseRows [''Month'', ''Coal''] 0 [[''01/2024'', ''1''], [''01/2024'', ''2'']]"
  let ?h = "sortBy (\<lambda>a b. compareMonthKey (month a) (month b)) ?p"
  have l: "loadHistory_try (Some ?t) = Inr ?h"
    unfolding loadHistory_try_def Let_def option.case csv_month_coal_2 csv.select_convs
      findIndex_month_coal
    by simp
  have hst: "history (loadHistory initialState (Some ?t)) = ?h"
    unfolding loadHistory_history l by simp
  have sh: "monthKeyShape ''01/2024''" by (simp add: monthKey_eval)
  have p: "?p = [\<lparr>month = ''01/2024'', values = rowValues [''Month'', ''Coal''] [''01/2024'', ''1'']\<rparr>,
                 \<lparr>month = ''01/2024'', values = rowValues [''Month'', ''Coal''] [''01/2024'', ''2'']\<rparr>]"
    using sh by (simp add: parseRows_map_filter cellOrEmpty_def trim_id isWhiteSpace_def)
  have m: "map month ?h = [''01/2024'', ''01/2024'']"
    unfolding map_sortBy_key p by (simp add: sortBy_Cons sortBy_Nil compareMonthKey_self)
  have f: "find (\<lambda>r. month r = ''01/2024'') ?h =
             Some \<lparr>month = ''01/2024'', values = rowValues [''Month'', ''Coal''] [''01/2024'', ''1'']\<rparr>"
    unfolding loadHistory_try_stable(3)[OF refl] p by simp
  have n: "Number_str ''1'' = Fin 1"
    using Number_str_digits[of "''1''"] by (simp add: isDigit_def digitsVal_def digitVal_def)
  have v: "rowValues [''Month'', ''Coal''] [''01/2024'', ''1''] Coal = Some (Fin 1)"
    by (simp add: rowValues_apply trim_def isWhiteSpace_def cellAt_def safeNum_def n)
  have ne: "''01/2024'' \<noteq> []" by simp
  have s: "startRow ((loadHistory initialState (Some ?t))\<lparr>startMonth := ''01/2024''\<rparr>) =
             Some \<lparr>month = ''01/2024'', values = rowValues [''Month'', ''Coal''] [''01/2024'', ''1'']\<rparr>"
    unfolding startRow_loaded[OF l ne] f ..
  show ?thesis unfolding hst s using m v by simp
qed

section \<open>The snapshot of the installed capacities\<close>

lemma safeNum_isFinite: "isFinite (safeNum x)"
  by (simp add: safeNum_def Let_def)

text \<open>The test \<open>Number.isFinite(v)\<close> follows \<open>safeNum\<close>, so it never fails: the loop
  assigns every source, those the header lacks too, and \<open>any\<close> ends true.\<close>

lemma overwriteFromMap_all:
  "overwriteFromMap m captured = ((\<lambda>s. Some (safeNum (getStr m (sourceName s)))), True)"
proof -
  have "fst (overwriteFromMap m captured) s = Some (safeNum (getStr m (sourceName s)))" for s
    by (cases s) (simp_all add: overwriteFromMap_def SOURCES_def safeNum_isFinite Let_def)
  then have "fst (overwriteFromMap m captured) = (\<lambda>s. Some (safeNum (getStr m (sourceName s))))"
    by (intro ext)
  moreover have "snd (overwriteFromMap m captured) = True"
    by (simp add: overwriteFromMap_def SOURCES_def safeNum_isFinite Let_def)
  ultimately show ?thesis by (metis prod.collapse)
qed

lemma defaultCapacities_apply: "defaultCapacities s = Some (Fin 0)"
  by (cases s) (simp_all add: defaultCapacities_def SOURCES_def)

lemma csv_foo_1:
  "parseCSVSimple (''Foo'' @ [LF] @ ''1'') = \<lparr>header = [''Foo''], rows = [[''1'']]\<rparr>"
  by (simp add: csv_eval)

lemma headerMap_foo: "headerMap [''Foo''] [''1''] = [''Foo'' \<mapsto> ''1'']"
  by (simp add: headerMap_def cellOrEmpty_def)

lemma loadCapacitySingleRow_foo:
  "loadCapacitySingleRow captured st (Some (''Foo'' @ [LF] @ ''1'')) =
     st\<lparr>installed := (\<lambda>s. Some (safeNum (getStr [''Foo'' \<mapsto> ''1''] (sourceName s)))),
        capacityCsvMissing := False, capacityCsvMsg := None\<rparr>"
  unfolding loadCapacitySingleRow_def Let_def option.case csv_foo_1 csv.select_convs
  by (simp add: overwriteFromMap_all headerMap_foo)

text \<open>
  C4. The snapshot \<open>Foo\<close> / \<open>1\<close> names no source. The loop still ends with \<open>any\<close> true
  and the mapping is replaced: a capacity of 7 that the user has entered for Hydro while
  the request was under way is back at 0, and so is every other source.
\<close>

theorem snapshot_without_source_replaces:
  "snd (overwriteFromMap (headerMap [''Foo''] [''1'']) defaultCapacities) = True
   \<and> installed (foldl (\<lambda>st (s, input). editInstalled s input st) initialCapacityState
         [(Hydro, ''7'')]) Hydro = Some (Fin 7)
   \<and> installed (capacityEffect initialCapacityState [(Hydro, ''7'')]
         (Some (''Foo'' @ [LF] @ ''1''))) Hydro = Some (Fin 0)"
proof (intro conjI)
  show "snd (overwriteFromMap (headerMap [''Foo''] [''1'']) defaultCapacities) = True"
    by (simp add: overwriteFromMap_all)
  have n: "Number_str ''7'' = Fin 7"
    using Number_str_digits[of "''7''"] by (simp add: isDigit_def digitsVal_def digitVal_def)
  show "installed (foldl (\<lambda>st (s, input). editInstalled s input st) initialCapacityState
         [(Hydro, ''7'')]) Hydro = Some (Fin 7)"
    by (simp add: editInstalled_def safeNum_def n)
  have z: "\<not> hasNonZeroLocal (installed initialCapacityState)"
    by (simp add: hasNonZeroLocal_def initialCapacityState_def defaultCapacities_apply
        SOURCES_def js_neq_def)
  show "installed (capacityEffect initialCapacityState [(Hydro, ''7'')]
         (Some (''Foo'' @ [LF] @ ''1''))) Hydro = Some (Fin 0)"
    unfolding capacityEffect_def Let_def if_not_P[OF z] loadCapacitySingleRow_foo
    by (simp add: getStr_def safeNum_def)
qed

section \<open>The selected months\<close>

lemma clampMonthKeyToOptions_in_options:
  assumes "opts \<noteq> []"
  shows "clampMonthKeyToOptions target opts \<in> set opts"
proof (cases "target \<in> set opts")
  case True
  then show ?thesis using assms by (simp add: clampMonthKeyToOptions_def)
next
  case False
  let ?sorted = "sortBy compareMonthKey opts"
  have st: "set ?sorted = set opts" by (rule set_sortBy)
  have sne: "?sorted \<noteq> []" using assms st by (metis set_empty)
  show ?thesis
  proof (cases "find (\<lambda>opt. js_le0 (compareMonthKey opt target)) (rev ?sorted)")
    case None
    then have "clampMonthKeyToOptions target opts = hd ?sorted"
      using assms False by (simp add: clampMonthKeyToOptions_def)
    with sne st show ?thesis by (metis hd_in_set)
  next
    case (Some r)
    then have "clampMonthKeyToOptions target opts = r"
      using assms False by (simp add: clampMonthKeyToOptions_def)
    moreover from find_split[OF Some] obtain as bs where rv: "rev ?sorted = as @ r # bs"
      by blast
    moreover have "r \<in> set (as @ r # bs)" by simp
    ultimately have "clampMonthKeyToOptions target opts \<in> set (rev ?sorted)" by simp
    then show ?thesis using st by simp
  qed
qed

lemma minusMonths_shape_Some: "monthKeyShape key \<Longrightarrow> \<exists>r. minusMonths key left = Some r"
  by (simp add: minusMonths_shape split: prod.split)

lemma monthOptions_subset:
  "set (monthOptions h) \<subseteq> month ` set h"
  by (auto simp: monthOptions_def set_sortBy)

lemma historyOk_options: "historyOk h \<Longrightarrow> m \<in> set (monthOptions h) \<Longrightarrow> monthKeyShape m"
  using monthOptions_subset[of h] by (auto simp: historyOk_def)

lemma orElse_Some: "s \<noteq> [] \<Longrightarrow> orElse (Some s) b = Some s"
  by (simp add: orElse_def)

lemma initSelection_ok:
  assumes h: "historyOk (history st)"
  shows "\<exists>st'. initSelection st = Some st' \<and> history st' = history st
           \<and> ((startMonth st' = startMonth st \<and> endMonth st' = endMonth st)
              \<or> (monthKeyShape (startMonth st') \<and> monthKeyShape (endMonth st')))"
proof (cases "monthOptions (history st) = []")
  case True
  then show ?thesis by (simp add: initSelection_def)
next
  case False
  let ?opts = "monthOptions (history st)"
  have sh: "\<And>m. m \<in> set ?opts \<Longrightarrow> monthKeyShape m"
    using h historyOk_options by blast
  have l: "last ?opts \<in> set ?opts" using False by simp
  from minusMonths_shape_Some[OF sh[OF l]] obtain cand where
    c: "minusMonths (last ?opts) 12 = Some cand" by blast
  have d: "defaultStartMonth ?opts = Some (Some (clampMonthKeyToOptions cand ?opts))"
    using False c by (simp add: defaultStartMonth_def latestMonth_def)
  have cl: "\<And>t. monthKeyShape (clampMonthKeyToOptions t ?opts)"
    using clampMonthKeyToOptions_in_options[OF False] sh by blast
  have e: "\<And>b. orElse (latestMonth ?opts) b = Some (last ?opts)"
    using False monthKeyShape_nonempty[OF sh[OF l]] by (simp add: latestMonth_def orElse_def)
  have s: "\<And>b c. orElse (orElse (Some (clampMonthKeyToOptions cand ?opts)) b) c =
             Some (clampMonthKeyToOptions cand ?opts)"
    using monthKeyShape_nonempty[OF cl[of cand]] by (simp add: orElse_Some)
  show ?thesis
    using False cl sh[OF l]
    by (simp add: initSelection_def Let_def d e s)
qed

lemma enforceStartLeEnd_ok:
  assumes "startMonth st = [] \<or> monthKeyShape (startMonth st)"
    and "endMonth st = [] \<or> monthKeyShape (endMonth st)"
  shows "history (enforceStartLeEnd st) = history st"
    and "endMonth (enforceStartLeEnd st) = endMonth st"
    and "startMonth (enforceStartLeEnd st) = [] \<or> monthKeyShape (startMonth (enforceStartLeEnd st))"
    and "startMonth (enforceStartLeEnd st) = [] \<or> endMonth st = []
         \<or> monthKeyLe (startMonth (enforceStartLeEnd st)) (endMonth st)"
    and "enforceStartLeEnd (enforceStartLeEnd st) = enforceStartLeEnd st"
  using assms
  by (auto simp: enforceStartLeEnd_def gt0_compareMonthKey_shape monthKeyLe_refl
      compareMonthKey_self)

lemma afterRender_ok:
  assumes p: "selectionOk prev"
    and h: "historyOk (history st)"
    and s: "startMonth st = [] \<or> monthKeyShape (startMonth st)"
    and e: "endMonth st = [] \<or> monthKeyShape (endMonth st)"
  shows "selectionOk (afterRender prev st)"
proof (cases "startMonth st = startMonth prev \<and> endMonth st = endMonth prev")
  case True
  with p h show ?thesis by (simp add: afterRender_def selectionOk_def)
next
  case False
  note en = enforceStartLeEnd_ok[OF s e]
  have "afterRender prev st = enforceStartLeEnd st"
    using False en(5) by (auto simp: afterRender_def Let_def)
  with en h e show ?thesis by (simp add: selectionOk_def)
qed

lemma safeNum_Fin: "\<exists>q. safeNum x = Fin q"
  by (cases "Number_of x") (simp_all add: safeNum_def)

lemma rowValues_finite: "\<exists>q. rowValues hdr row s = Some (Fin q)"
  using safeNum_Fin by (simp add: rowValues_apply split: option.split)

lemma parseRows_historyOk: "historyOk (parseRows hdr monthIdx rs)"
  by (auto simp: historyOk_def parseRows_map_filter rowValues_finite)

lemma loadHistory_ok:
  "historyOk (history (loadHistory st response))"
  "startMonth (loadHistory st response) = startMonth st"
  "endMonth (loadHistory st response) = endMonth st"
proof -
  show "historyOk (history (loadHistory st response))"
  proof (cases "loadHistory_try response")
    case (Inl e)
    then show ?thesis by (simp add: loadHistory_history historyOk_def)
  next
    case (Inr h)
    from loadHistory_try_Inr[OF Inr] obtain t monthIdx where
      "h = sortBy (\<lambda>a b. compareMonthKey (month a) (month b))
              (parseRows (header (parseCSVSimple t)) monthIdx (rows (parseCSVSimple t)))"
      by blast
    then have "set h = set (parseRows (header (parseCSVSimple t)) monthIdx (rows (parseCSVSimple t)))"
      by (simp add: set_sortBy)
    then have "historyOk h"
      using parseRows_historyOk[of "header (parseCSVSimple t)" monthIdx "rows (parseCSVSimple t)"]
      by (simp add: historyOk_def)
    with Inr show ?thesis by (simp add: loadHistory_history)
  qed
  show "startMonth (loadHistory st response) = startMonth st"
    "endMonth (loadHistory st response) = endMonth st"
    by (simp_all add: loadHistory_def split: sum.split)
qed

lemma offered_shape:
  "historyOk (history st) \<Longrightarrow> m \<in> set (offered st) \<Longrightarrow> m = [] \<or> monthKeyShape m"
  using historyOk_options[of "history st" m]
  by (auto simp: offered_def Let_def split: if_splits)

lemma step_response_ok:
  assumes "selectionOk st"
  shows "\<exists>st'. step st (HistoryResponse response) = Some st' \<and> selectionOk st'"
proof -
  let ?st1 = "loadHistory st response"
  note l = loadHistory_ok[of st response]
  from initSelection_ok[OF l(1)] obtain st2 where
    i: "initSelection ?st1 = Some st2" and h2: "history st2 = history ?st1"
    and se: "(startMonth st2 = startMonth ?st1 \<and> endMonth st2 = endMonth ?st1)
             \<or> (monthKeyShape (startMonth st2) \<and> monthKeyShape (endMonth st2))"
    by blast
  have s: "startMonth st2 = [] \<or> monthKeyShape (startMonth st2)"
    and e: "endMonth st2 = [] \<or> monthKeyShape (endMonth st2)"
    using se l(2,3) assms by (auto simp: selectionOk_def)
  have "selectionOk (afterRender st st2)"
    using assms l(1) s e by (intro afterRender_ok) (simp_all add: h2)
  then show ?thesis by (simp add: step_def i)
qed

lemma step_select_ok:
  assumes "selectionOk st" "m \<in> set (offered st)"
  shows "\<exists>st'. step st (SelectStart m) = Some st' \<and> selectionOk st'"
    and "\<exists>st'. step st (SelectEnd m) = Some st' \<and> selectionOk st'"
proof -
  have m: "m = [] \<or> monthKeyShape m"
    using offered_shape[OF _ assms(2)] assms(1) by (simp add: selectionOk_def)
  have "selectionOk (afterRender st (st\<lparr>startMonth := m\<rparr>))"
    using assms(1) m by (intro afterRender_ok) (simp_all add: selectionOk_def)
  then show "\<exists>st'. step st (SelectStart m) = Some st' \<and> selectionOk st'"
    by (simp add: step_def)
  have "selectionOk (afterRender st (st\<lparr>endMonth := m\<rparr>))"
    using assms(1) m by (intro afterRender_ok) (simp_all add: selectionOk_def)
  then show "\<exists>st'. step st (SelectEnd m) = Some st' \<and> selectionOk st'"
    by (simp add: step_def)
qed

lemma reachable_selectionOk: "reachable st \<Longrightarrow> selectionOk st"
proof (induction rule: reachable.induct)
  case reachable_init
  show ?case by (simp add: selectionOk_def historyOk_def initialState_def)
next
  case (reachable_response st response st')
  with step_response_ok[of st response] show ?case by simp
next
  case (reachable_start st m st')
  with step_select_ok(1)[of st m] show ?case by simp
next
  case (reachable_end st m st')
  with step_select_ok(2)[of st m] show ?case by simp
qed

lemma select_end_before_start:
  assumes ok: "selectionOk st" and m: "m \<in> set (offered st)"
    and ne: "startMonth st \<noteq> []" "m \<noteq> []" and v: "\<not> monthKeyLe (startMonth st) m"
  shows "step st (SelectEnd m) = Some (st\<lparr>endMonth := m, startMonth := m\<rparr>)"
proof -
  have ms: "monthKeyShape m" using offered_shape[OF _ m] ok ne by (auto simp: selectionOk_def)
  have ss: "monthKeyShape (startMonth st)" using ok ne by (auto simp: selectionOk_def)
  have ch: "endMonth st \<noteq> m" using ok v ne by (auto simp: selectionOk_def)
  have sm: "startMonth st \<noteq> m" using v monthKeyLe_refl by auto
  have g: "js_gt0 (compareMonthKey (startMonth st) m)"
    using v by (simp add: gt0_compareMonthKey_shape[OF ss ms])
  have e1: "enforceStartLeEnd (st\<lparr>endMonth := m\<rparr>) = st\<lparr>endMonth := m, startMonth := m\<rparr>"
    using ne g by (simp add: enforceStartLeEnd_def)
  have e2: "enforceStartLeEnd (st\<lparr>endMonth := m, startMonth := m\<rparr>) = st\<lparr>endMonth := m, startMonth := m\<rparr>"
    using ne by (simp add: enforceStartLeEnd_def compareMonthKey_self)
  have "afterRender st (st\<lparr>endMonth := m\<rparr>) = st\<lparr>endMonth := m, startMonth := m\<rparr>"
    using ch sm by (simp add: afterRender_def Let_def e1 e2)
  then show ?thesis by (simp add: step_def)
qed

lemma select_start_after_end:
  assumes ok: "selectionOk st" and m: "m \<in> set (offered st)"
    and ne: "endMonth st \<noteq> []" "m \<noteq> []" and v: "\<not> monthKeyLe m (endMonth st)"
  shows "step st (SelectStart m) = Some (st\<lparr>startMonth := endMonth st\<rparr>)"
proof -
  have ms: "monthKeyShape m" using offered_shape[OF _ m] ok ne by (auto simp: selectionOk_def)
  have es: "monthKeyShape (endMonth st)" using ok ne by (auto simp: selectionOk_def)
  have ch: "startMonth st \<noteq> m" using ok v ne by (auto simp: selectionOk_def)
  have me: "m \<noteq> endMonth st" using v monthKeyLe_refl by auto
  have g: "js_gt0 (compareMonthKey m (endMonth st))"
    using v by (simp add: gt0_compareMonthKey_shape[OF ms es])
  have e1: "enforceStartLeEnd (st\<lparr>startMonth := m\<rparr>) = st\<lparr>startMonth := endMonth st\<rparr>"
    using ne g by (simp add: enforceStartLeEnd_def)
  have e2: "enforceStartLeEnd (st\<lparr>startMonth := endMonth st\<rparr>) = st\<lparr>startMonth := endMonth st\<rparr>"
    using ne by (simp add: enforceStartLeEnd_def compareMonthKey_self)
  have "afterRender st (st\<lparr>startMonth := m\<rparr>) = st\<lparr>startMonth := endMonth st\<rparr>"
    using ch me by (simp add: afterRender_def Let_def e1 e2)
  then show ?thesis by (simp add: step_def)
qed

section \<open>The example history\<close>

lemma exampleCsv_parsed:
  "parseCSVSimple exampleCsv =
     \<lparr>header = [''Month'', ''Coal''],
      rows = [[''01/2022'', ''40''], [''01/2023'', ''50''], [''01/2024'', ''55'']]\<rparr>"
  by (simp add: exampleCsv_def csv_eval)

lemma example_shapes:
  "monthKeyShape ''01/2022''" "monthKeyShape ''01/2023''" "monthKeyShape ''01/2024''"
  by (simp_all add: monthKey_eval)

lemma example_order:
  "monthKeyLe ''01/2022'' ''01/2023''" "monthKeyLe ''01/2023'' ''01/2024''"
  "monthKeyLe ''01/2022'' ''01/2024''" "\<not> monthKeyLe ''01/2023'' ''01/2022''"
  by (simp_all add: monthKey_eval)

lemma example_parseRows:
  "parseRows [''Month'', ''Coal''] 0
     [[''01/2022'', ''40''], [''01/2023'', ''50''], [''01/2024'', ''55'']] =
   [exampleRow ''01/2022'' ''40'', exampleRow ''01/2023'' ''50'', exampleRow ''01/2024'' ''55'']"
  using example_shapes
  by (simp add: parseRows_map_filter cellOrEmpty_def trim_id isWhiteSpace_def exampleRow_def)

lemma example_sorted:
  "sortBy (\<lambda>a b. compareMonthKey (month a) (month b))
     [exampleRow ''01/2022'' ''40'', exampleRow ''01/2023'' ''50'', exampleRow ''01/2024'' ''55''] =
   [exampleRow ''01/2022'' ''40'', exampleRow ''01/2023'' ''50'', exampleRow ''01/2024'' ''55'']"
  using example_shapes example_order
  by (simp add: sortBy_Cons sortBy_Nil gt0_compareMonthKey_shape exampleRow_def)

lemma example_loadHistory_try:
  "loadHistory_try (Some exampleCsv) = Inr (history exampleState)"
  unfolding loadHistory_try_def Let_def option.case exampleCsv_parsed csv.select_convs
    findIndex_month_coal example_parseRows example_sorted
  by (simp add: exampleState_def)

lemma example_options:
  "monthOptions (history exampleState) = [''01/2022'', ''01/2023'', ''01/2024'']"
  unfolding loadHistory_try_months(3)[OF example_loadHistory_try]
  by (simp add: exampleState_def exampleRow_def)

lemma example_minusMonths: "minusMonths ''01/2024'' 12 = Some ''01/2023''"
proof -
  have wf: "wellFormedMonthKey ''01/2024''"
    by (simp add: wellFormedMonthKey_def monthKey_eval)
  have "monthIndex ''01/2024'' - int 12 = 24276"
    by (simp add: monthIndex_def monthKey_eval)
  with minusMonths_wellFormed[OF wf, of 12] show ?thesis
    by (simp add: padStart2_def showInt_def showNat.simps digitChar_def)
qed

lemma example_default:
  "defaultStartMonth [''01/2022'', ''01/2023'', ''01/2024''] = Some (Some ''01/2023'')"
  by (simp add: defaultStartMonth_def latestMonth_def example_minusMonths
      clampMonthKeyToOptions_def)

lemma example_step:
  "step initialState (HistoryResponse (Some exampleCsv)) = Some exampleState"
proof -
  have l: "loadHistory initialState (Some exampleCsv) =
             \<lparr>history = history exampleState, historyError = None, startMonth = [], endMonth = []\<rparr>"
    by (simp add: loadHistory_def example_loadHistory_try initialState_def)
  have i: "initSelection \<lparr>history = history exampleState, historyError = None,
             startMonth = [], endMonth = []\<rparr> = Some exampleState"
    unfolding initSelection_def Let_def historyState.select_convs example_options example_default
    by (simp add: orElse_def latestMonth_def exampleState_def)
  have e: "enforceStartLeEnd exampleState = exampleState"
    using example_shapes example_order
    by (simp add: enforceStartLeEnd_def exampleState_def gt0_compareMonthKey_shape)
  have a: "afterRender initialState exampleState = exampleState"
    by (simp add: afterRender_def Let_def e)
  show ?thesis by (simp add: step_def l i a)
qed

lemma example_reachable: "reachable exampleState"
  by (rule reachable_response[OF reachable_init example_step])

section \<open>Start is never after end\<close>

text \<open>
  C6. The states of the history card are those reached from the first render by the
  arrival of the history response and by the user picking a start or an end month among
  the options on offer, each step taken with the effects it triggers. In every such state
  a selected month has the shape MM/YYYY, and when both months are selected the start is
  not after the end. Every step from such a state has a result. Picking an end month
  before the current start moves the start to that end month; picking a start month
  after the current end leaves the start at the end month.
\<close>

theorem start_le_end_invariant:
  "(reachable st \<longrightarrow>
      (startMonth st = [] \<or> monthKeyShape (startMonth st))
      \<and> (endMonth st = [] \<or> monthKeyShape (endMonth st))
      \<and> (startMonth st = [] \<or> endMonth st = [] \<or> monthKeyLe (startMonth st) (endMonth st))
      \<and> (\<exists>st'. step st a = Some st'))
   \<and> (reachable st \<and> m \<in> set (offered st) \<and> startMonth st \<noteq> [] \<and> m \<noteq> []
        \<and> \<not> monthKeyLe (startMonth st) m \<longrightarrow>
          step st (SelectEnd m) = Some (st\<lparr>endMonth := m, startMonth := m\<rparr>))
   \<and> (reachable st \<and> m \<in> set (offered st) \<and> endMonth st \<noteq> [] \<and> m \<noteq> []
        \<and> \<not> monthKeyLe m (endMonth st) \<longrightarrow>
          step st (SelectStart m) = Some (st\<lparr>startMonth := endMonth st\<rparr>))"
proof (intro conjI impI)
  assume r: "reachable st"
  note ok = reachable_selectionOk[OF r]
  from ok show "startMonth st = [] \<or> monthKeyShape (startMonth st)"
    by (simp add: selectionOk_def)
  from ok show "endMonth st = [] \<or> monthKeyShape (endMonth st)"
    by (simp add: selectionOk_def)
  from ok show "startMonth st = [] \<or> endMonth st = [] \<or> monthKeyLe (startMonth st) (endMonth st)"
    by (simp add: selectionOk_def)
  show "\<exists>st'. step st a = Some st'"
  proof (cases a)
    case (HistoryResponse response)
    with step_response_ok[OF ok, of response] show ?thesis by blast
  next
    case (SelectStart k)
    then show ?thesis by (simp add: step_def)
  next
    case (SelectEnd k)
    then show ?thesis by (simp add: step_def)
  qed
next
  assume "reachable st \<and> m \<in> set (offered st) \<and> startMonth st \<noteq> [] \<and> m \<noteq> []
        \<and> \<not> monthKeyLe (startMonth st) m"
  then show "step st (SelectEnd m) = Some (st\<lparr>endMonth := m, startMonth := m\<rparr>)"
    using select_end_before_start[of st m] reachable_selectionOk[of st] by blast
next
  assume "reachable st \<and> m \<in> set (offered st) \<and> endMonth st \<noteq> [] \<and> m \<noteq> []
        \<and> \<not> monthKeyLe m (endMonth st)"
  then show "step st (SelectStart m) = Some (st\<lparr>startMonth := endMonth st\<rparr>)"
    using select_start_after_end[of st m] reachable_selectionOk[of st] by blast
qed

theorem start_le_end_witness:
  "reachable exampleState
   \<and> startMonth exampleState = ''01/2023'' \<and> endMonth exampleState = ''01/2024''
   \<and> monthKeyLe (startMonth exampleState) (endMonth exampleState)
   \<and> ''01/2022'' \<in> set (offered exampleState)
   \<and> step exampleState (SelectEnd ''01/2022'') =
       Some (exampleState\<lparr>endMonth := ''01/2022'', startMonth := ''01/2022''\<rparr>)
   \<and> step exampleState (SelectStart ''01/2024'') = Some (exampleState\<lparr>startMonth := ''01/2024''\<rparr>)"
proof -
  note r = example_reachable
  have s: "startMonth exampleState = ''01/2023''" and e: "endMonth exampleState = ''01/2024''"
    by (simp_all add: exampleState_def)
  have o: "''01/2022'' \<in> set (offered exampleState)"
    by (simp add: offered_def example_options)
  note t = start_le_end_invariant[of exampleState "SelectEnd ''01/2022''" "''01/2022''"]
  note inv = t[THEN conjunct1, THEN mp, OF r]
  have le: "monthKeyLe (startMonth exampleState) (endMonth exampleState)"
    using inv[THEN conjunct2, THEN conjunct2, THEN conjunct1] by (simp add: s e)
  have h: "reachable exampleState \<and> ''01/2022'' \<in> set (offered exampleState)
           \<and> startMonth exampleState \<noteq> [] \<and> ''01/2022'' \<noteq> []
           \<and> \<not> monthKeyLe (startMonth exampleState) ''01/2022''"
    using r o example_order(4) by (simp add: s)
  note se = t[THEN conjunct2, THEN conjunct1, THEN mp, OF h]
  have ss: "step exampleState (SelectStart ''01/2024'') = Some (exampleState\<lparr>startMonth := ''01/2024''\<rparr>)"
    using example_shapes example_order
    by (simp add: step_def afterRender_def Let_def enforceStartLeEnd_def s e
        gt0_compareMonthKey_shape compareMonthKey_self)
  from r s e le o se ss show ?thesis by (intro conjI)
qed

section \<open>A history with a value that is not a binary64 value\<close>

lemma roundingCsv_parsed:
  "parseCSVSimple roundingCsv =
     \<lparr>header = [''Month'', ''Coal''], rows = [[''01/2023'', ''0''], [''01/2024'', ''1.005'']]\<rparr>"
  by (simp add: roundingCsv_def csv_eval)

lemma rounding_parseRows:
  "parseRows [''Month'', ''Coal''] 0 [[''01/2023'', ''0''], [''01/2024'', ''1.005'']] =
   [exampleRow ''01/2023'' ''0'', exampleRow ''01/2024'' ''1.005'']"
  using example_shapes
  by (simp add: parseRows_map_filter cellOrEmpty_def trim_id isWhiteSpace_def exampleRow_def)

lemma rounding_sorted:
  "sortBy (\<lambda>a b. compareMonthKey (month a) (month b))
     [exampleRow ''01/2023'' ''0'', exampleRow ''01/2024'' ''1.005''] =
   [exampleRow ''01/2023'' ''0'', exampleRow ''01/2024'' ''1.005'']"
  using example_shapes example_order
  by (simp add: sortBy_Cons sortBy_Nil gt0_compareMonthKey_shape exampleRow_def)

lemma rounding_loadHistory_try:
  "loadHistory_try (Some roundingCsv) = Inr (history roundingState)"
  unfolding loadHistory_try_def Let_def option.case roundingCsv_parsed csv.select_convs
    findIndex_month_coal rounding_parseRows rounding_sorted
  by (simp add: roundingState_def)

lemma rounding_options:
  "monthOptions (history roundingState) = [''01/2023'', ''01/2024'']"
  unfolding loadHistory_try_months(3)[OF rounding_loadHistory_try]
  by (simp add: roundingState_def exampleRow_def)

lemma rounding_default:
  "defaultStartMonth [''01/2023'', ''01/2024''] = Some (Some ''01/2023'')"
  by (simp add: defaultStartMonth_def latestMonth_def example_minusMonths
      clampMonthKeyToOptions_def)

lemma rounding_step:
  "step initialState (HistoryResponse (Some roundingCsv)) = Some roundingState"
proof -
  have l: "loadHistory initialState (Some roundingCsv) =
             \<lparr>history = history roundingState, historyError = None, startMonth = [], endMonth = []\<rparr>"
    by (simp add: loadHistory_def rounding_loadHistory_try initialState_def)
  have i: "initSelection \<lparr>history = history roundingState, historyError = None,
             startMonth = [], endMonth = []\<rparr> = Some roundingState"
    unfolding initSelection_def Let_def historyState.select_convs rounding_options rounding_default
    by (simp add: orElse_def latestMonth_def roundingState_def)
  have e: "enforceStartLeEnd roundingState = roundingState"
    using example_shapes example_order
    by (simp add: enforceStartLeEnd_def roundingState_def gt0_compareMonthKey_shape)
  have a: "afterRender initialState roundingState = roundingState"
    by (simp add: afterRender_def Let_def e)
  show ?thesis by (simp add: step_def l i a)
qed

lemma rounding_reachable: "reachable roundingState"
  by (rule reachable_response[OF reachable_init rounding_step])

section \<open>Net additions\<close>

lemma sumSources_values:
  "sumSources obj keys = foldl js_add (Fin 0) (map (\<lambda>k. Fin (finiteOrZero (obj k))) keys)"
  by (simp add: sumSources_def foldl_map safeNum_getNum)

lemma netAdditions_per:
  "per (netAdditions st en) s =
     Some (case (perOf st s, perOf en s) of
             (Some a, Some b) \<Rightarrow> round2 (js_sub b a)
           | _ \<Rightarrow> Fin 0)"
  by (cases s) (simp_all add: netAdditions_def SOURCES_def)

lemma netAdditions_absent:
  assumes "startRow st = None \<or> endRow st = None"
  shows "per (netAdditions (startTotals st) (endTotals st)) s = Some (Fin 0)"
    and "total (netAdditions (startTotals st) (endTotals st)) = Fin 0"
proof -
  show "per (netAdditions (startTotals st) (endTotals st)) s = Some (Fin 0)"
    using assms
    by (auto simp: netAdditions_per perOf_def startTotals_def endTotals_def rowTotals_def
        split: option.splits)
  show "total (netAdditions (startTotals st) (endTotals st)) = Fin 0"
    using assms
    by (auto simp: netAdditions_def startTotals_def endTotals_def rowTotals_def
        split: option.splits)
qed

lemma startRow_in_history: "startRow st = Some a \<Longrightarrow> a \<in> set (history st)"
  by (auto simp: startRow_def find_Some_iff split: if_splits)

lemma endRow_in_history: "endRow st = Some b \<Longrightarrow> b \<in> set (history st)"
  by (auto simp: endRow_def find_Some_iff split: if_splits)

lemma netAdditions_present:
  assumes ok: "historyOk (history st)" and a: "startRow st = Some a" and b: "endRow st = Some b"
  shows "values a s = Some (Fin (finiteOrZero (values a s)))"
    and "values b s = Some (Fin (finiteOrZero (values b s)))"
    and "per (netAdditions (startTotals st) (endTotals st)) s =
           Some (round2 (js_sub (Fin (finiteOrZero (values b s)))
                           (Fin (finiteOrZero (values a s)))))"
    and "total (netAdditions (startTotals st) (endTotals st)) =
           round2 (js_sub
             (foldl js_add (Fin 0) (map (\<lambda>s. Fin (finiteOrZero (values b s))) SOURCES))
             (foldl js_add (Fin 0) (map (\<lambda>s. Fin (finiteOrZero (values a s))) SOURCES)))"
proof -
  from ok startRow_in_history[OF a] obtain qa where qa: "values a s = Some (Fin qa)"
    by (auto simp: historyOk_def)
  from ok endRow_in_history[OF b] obtain qb where qb: "values b s = Some (Fin qb)"
    by (auto simp: historyOk_def)
  show "values a s = Some (Fin (finiteOrZero (values a s)))"
    by (simp add: qa finiteOrZero_def)
  show "values b s = Some (Fin (finiteOrZero (values b s)))"
    by (simp add: qb finiteOrZero_def)
  show "per (netAdditions (startTotals st) (endTotals st)) s =
           Some (round2 (js_sub (Fin (finiteOrZero (values b s)))
                           (Fin (finiteOrZero (values a s)))))"
    by (simp add: netAdditions_per perOf_def startTotals_def endTotals_def rowTotals_def a b
        qa qb finiteOrZero_def)
  show "total (netAdditions (startTotals st) (endTotals st)) =
           round2 (js_sub
             (foldl js_add (Fin 0) (map (\<lambda>s. Fin (finiteOrZero (values b s))) SOURCES))
             (foldl js_add (Fin 0) (map (\<lambda>s. Fin (finiteOrZero (values a s))) SOURCES)))"
    unfolding netAdditions_def startTotals_def endTotals_def rowTotals_def a b sumSources_values
    by simp
qed

text \<open>
  C8. In every state the history card can reach: when the start row and the end row are
  both found in History, each of their values is a finite number, the net addition of
  every source is \<open>round2\<close> of the end value less the start value, and the total net
  addition is \<open>round2\<close> of the sum of the end values less the sum of the start values.
  The difference, the sums, which go from the left over the eight sources, and \<open>round2\<close>
  are the operations of the program on binary64 values. When either row is missing, in
  any state, every net addition and the total are 0.
\<close>

theorem netAdditions_spec:
  "(reachable st \<and> startRow st = Some a \<and> endRow st = Some b \<longrightarrow>
      values a s = Some (Fin (finiteOrZero (values a s)))
      \<and> values b s = Some (Fin (finiteOrZero (values b s)))
      \<and> per (netAdditions (startTotals st) (endTotals st)) s =
           Some (round2 (js_sub (Fin (finiteOrZero (values b s)))
                           (Fin (finiteOrZero (values a s)))))
      \<and> total (netAdditions (startTotals st) (endTotals st)) =
           round2 (js_sub
             (foldl js_add (Fin 0) (map (\<lambda>s. Fin (finiteOrZero (values b s))) SOURCES))
             (foldl js_add (Fin 0) (map (\<lambda>s. Fin (finiteOrZero (values a s))) SOURCES))))
   \<and> (startRow st = None \<or> endRow st = None \<longrightarrow>
        per (netAdditions (startTotals st) (endTotals st)) s = Some (Fin 0)
        \<and> total (netAdditions (startTotals st) (endTotals st)) = Fin 0)"
proof (intro conjI impI)
  assume h: "reachable st \<and> startRow st = Some a \<and> endRow st = Some b"
  then have ok: "historyOk (history st)"
    using reachable_selectionOk[of st] by (simp add: selectionOk_def)
  from h have a: "startRow st = Some a" and b: "endRow st = Some b" by simp_all
  note p = netAdditions_present[OF ok a b]
  from p(1) show "values a s = Some (Fin (finiteOrZero (values a s)))" .
  from p(2) show "values b s = Some (Fin (finiteOrZero (values b s)))" .
  from p(3) show "per (netAdditions (startTotals st) (endTotals st)) s =
           Some (round2 (js_sub (Fin (finiteOrZero (values b s)))
                           (Fin (finiteOrZero (values a s)))))" .
  from p(4) show "total (netAdditions (startTotals st) (endTotals st)) =
           round2 (js_sub
             (foldl js_add (Fin 0) (map (\<lambda>s. Fin (finiteOrZero (values b s))) SOURCES))
             (foldl js_add (Fin 0) (map (\<lambda>s. Fin (finiteOrZero (values a s))) SOURCES)))" .
next
  assume n: "startRow st = None \<or> endRow st = None"
  from netAdditions_absent(1)[OF n]
  show "per (netAdditions (startTotals st) (endTotals st)) s = Some (Fin 0)" .
  from netAdditions_absent(2)[OF n]
  show "total (netAdditions (startTotals st) (endTotals st)) = Fin 0" .
qed

text \<open>The cell \<open>1.005\<close> denotes the binary64 value nearest to 1.005, which is below it,
  and the cell \<open>0\<close> denotes 0.\<close>

lemma Number_str_1_005: "Number_str ''1.005'' = Fin (4526117625507348 / 2 ^ 52)"
proof -
  have "binary64 (1005 / 1000) = Fin (4526117625507348 / 2 ^ 52)"
    using binary64_eqI[of "- 52" "1005 / 1000" 4526117625507348] by simp
  then show ?thesis
    by (simp add: Number_str_def trim_def isWhiteSpace_def nonDecimal_def unsignedDecimal_def
        isDigit_def exponentPart_def pow10_def digitsVal_def digitVal_def)
qed

lemma Number_str_0: "Number_str ''0'' = Fin 0"
  using Number_str_digits[of "''0''"] by (simp add: isDigit_def digitsVal_def digitVal_def)

lemma exampleRow_values:
  "values (exampleRow m v) s = Some (if s = Coal then safeNum (Str v) else Fin 0)"
  by (cases s)
    (simp_all add: exampleRow_def rowValues_apply trim_def isWhiteSpace_def cellAt_def)

lemma rounding_values:
  "finiteOrZero (values (exampleRow m ''0'') s) = 0"
  "finiteOrZero (values (exampleRow m ''1.005'') s) = (if s = Coal then 4526117625507348 / 2 ^ 52 else 0)"
  by (simp_all add: exampleRow_values safeNum_def Number_str_0 Number_str_1_005 finiteOrZero_def)

text \<open>A hundred times that value rounds to a value below 100.5, so \<open>round2\<close> gives 1.\<close>

lemma round2_1_005: "round2 (Fin (4526117625507348 / 2 ^ 52)) = Fin 1"
proof -
  have a: "binary64 (4526117625507348 / 2 ^ 52 * 100) = Fin (7072058789855231 / 2 ^ 46)"
    using binary64_eqI[of "- 46" "4526117625507348 / 2 ^ 52 * 100" 7072058789855231] by simp
  have b: "\<lfloor>(7072058789855231 / 2 ^ 46 :: rat) + 1 / 2\<rfloor> = 100"
    by (rule floor_unique) simp_all
  have c: "binary64 (of_int 100 / 100) = Fin 1" using binary64_int[of 1] by simp
  show ?thesis by (rule round2_steps[OF a b c])
qed

lemma binary64_1_005: "binary64 (4526117625507348 / 2 ^ 52) = Fin (4526117625507348 / 2 ^ 52)"
  using binary64_eqI[of "- 52" "4526117625507348 / 2 ^ 52" 4526117625507348] by simp

theorem netAdditions_witness:
  "reachable roundingState
   \<and> startRow roundingState = Some (exampleRow ''01/2023'' ''0'')
   \<and> endRow roundingState = Some (exampleRow ''01/2024'' ''1.005'')
   \<and> values (exampleRow ''01/2024'' ''1.005'') Coal = Some (binary64 (1005 / 1000))
   \<and> per (netAdditions (startTotals roundingState) (endTotals roundingState)) Coal = Some (Fin 1)
   \<and> total (netAdditions (startTotals roundingState) (endTotals roundingState)) = Fin 1
   \<and> startRow (roundingState\<lparr>startMonth := ''''\<rparr>) = None
   \<and> per (netAdditions (startTotals (roundingState\<lparr>startMonth := ''''\<rparr>))
            (endTotals (roundingState\<lparr>startMonth := ''''\<rparr>))) Coal = Some (Fin 0)
   \<and> total (netAdditions (startTotals (roundingState\<lparr>startMonth := ''''\<rparr>))
            (endTotals (roundingState\<lparr>startMonth := ''''\<rparr>))) = Fin 0"
proof -
  note r = rounding_reachable
  have a: "startRow roundingState = Some (exampleRow ''01/2023'' ''0'')"
    by (simp add: startRow_def roundingState_def exampleRow_def)
  have b: "endRow roundingState = Some (exampleRow ''01/2024'' ''1.005'')"
    by (simp add: endRow_def roundingState_def exampleRow_def)
  have h: "reachable roundingState \<and> startRow roundingState = Some (exampleRow ''01/2023'' ''0'')
           \<and> endRow roundingState = Some (exampleRow ''01/2024'' ''1.005'')"
    using r a b by (intro conjI)
  note t = netAdditions_spec[of roundingState "exampleRow ''01/2023'' ''0''"
      "exampleRow ''01/2024'' ''1.005''" Coal, THEN conjunct1, THEN mp, OF h]
  have v: "values (exampleRow ''01/2024'' ''1.005'') Coal = Some (binary64 (1005 / 1000))"
    using t[THEN conjunct2, THEN conjunct1] binary64_eqI[of "- 52" "1005 / 1000" 4526117625507348]
    by (simp add: rounding_values)
  have d: "js_sub (Fin (4526117625507348 / 2 ^ 52)) (Fin 0) = Fin (4526117625507348 / 2 ^ 52)"
    using binary64_1_005 by (simp add: js_sub_def)
  have p: "per (netAdditions (startTotals roundingState) (endTotals roundingState)) Coal = Some (Fin 1)"
    using t[THEN conjunct2, THEN conjunct2, THEN conjunct1] d round2_1_005
    by (simp add: rounding_values)
  have q: "total (netAdditions (startTotals roundingState) (endTotals roundingState)) = Fin 1"
    using t[THEN conjunct2, THEN conjunct2, THEN conjunct2] d round2_1_005 binary64_1_005
    by (simp add: rounding_values SOURCES_def binary64_0)
  let ?st = "roundingState\<lparr>startMonth := ''''\<rparr>"
  have n: "startRow ?st = None" by (simp add: startRow_def)
  have n': "startRow ?st = None \<or> endRow ?st = None" using n by simp
  note u = netAdditions_spec[of ?st _ _ Coal, THEN conjunct2, THEN mp, OF n']
  from r a b v p q n u[THEN conjunct1] u[THEN conjunct2] show ?thesis by (intro conjI)
qed

end
